theory Spec2Isabelle
  imports Main "HOL-Library.Multiset"
begin

section \<open>Wide characters, the C library's classification, failures\<close>

text \<open>
  A \<open>wchar_t\<close> is modelled by its code point and a \<open>std::wstring\<close> by the list of its
  code points. Lengths, loop counters and alphabet indices are small non-negative numbers in
  the source (\<open>int\<close>, \<open>size_t\<close>); they are modelled by unbounded numbers, which agrees with
  the machine arithmetic for every text of fewer than \<open>2^31 - 100\<close> symbols.
\<close>

type_synonym wchar = nat
type_synonym wstring = "wchar list"

text \<open>
  \<open>std::iswalpha\<close>, \<open>std::iswlower\<close>, \<open>std::iswupper\<close> and \<open>std::towupper\<close> belong to
  the C library and depend on the locale the process runs in (both drivers call
  \<open>setlocale(LC_ALL, "")\<close>). They are parameters of the model.
\<close>

record ctype =
  iswalpha :: "wchar \<Rightarrow> bool"
  iswlower :: "wchar \<Rightarrow> bool"
  iswupper :: "wchar \<Rightarrow> bool"
  towupper :: "wchar \<Rightarrow> wchar"

text \<open>
  A classification for concrete instances. On Basic Latin and on the Cyrillic block
  \<open>U+0400 .. U+045F\<close> it is what the C library answers in a Unicode locale. Every other
  code point is a placeholder here (a non-letter that \<open>towupper\<close> leaves alone), which is not
  what the library answers on every such code point; the instances below are at Latin
  letters, digits, the space and letters of the Cyrillic block only.
\<close>

definition unicode_ctype :: ctype where
  "unicode_ctype =
     \<lparr> iswalpha = (\<lambda>c. (65 \<le> c \<and> c \<le> 90) \<or> (97 \<le> c \<and> c \<le> 122) \<or> (1024 \<le> c \<and> c \<le> 1119)),
       iswlower = (\<lambda>c. (97 \<le> c \<and> c \<le> 122) \<or> (1072 \<le> c \<and> c \<le> 1119)),
       iswupper = (\<lambda>c. (65 \<le> c \<and> c \<le> 90) \<or> (1024 \<le> c \<and> c \<le> 1071)),
       towupper = (\<lambda>c. if (97 \<le> c \<and> c \<le> 122) \<or> (1072 \<le> c \<and> c \<le> 1103) then c - 32
                        else if 1104 \<le> c \<and> c \<le> 1119 then c - 80 else c) \<rparr>"

text \<open>
  Both modules throw one exception class, \<open>cipher_error\<close>, told apart by its message.
  \<open>Modulo_by_zero\<close> stands for the undefined behaviour of \<open>i % key.size()\<close> on an empty key.
\<close>

datatype failure = Cipher_error string | Modulo_by_zero

section \<open>The shift engine: class \<open>modAlphaCipher\<close>\<close>

text \<open>The member \<open>numAlpha\<close>: the letters \<open>U+0410 .. U+042F\<close> with \<open>U+0401\<close> after the sixth.\<close>

definition numAlpha :: wstring where
  "numAlpha = [1040, 1041, 1042, 1043, 1044, 1045, 1025, 1046, 1047, 1048, 1049,
               1050, 1051, 1052, 1053, 1054, 1055, 1056, 1057, 1058, 1059, 1060,
               1061, 1062, 1063, 1064, 1065, 1066, 1067, 1068, 1069, 1070, 1071]"

record modAlphaCipher =
  alphaNum :: "wchar \<rightharpoonup> int"
  key :: "int list"

definition toUpper :: "ctype \<Rightarrow> wchar \<Rightarrow> wchar" where
  "toUpper L c =
     (if 1072 \<le> c \<and> c \<le> 1103 then 1040 + (c - 1072)
      else if c = 1105 then 1025
      else towupper L c)"

fun getValidKey_loop :: "ctype \<Rightarrow> wstring \<Rightarrow> failure + wstring" where
  "getValidKey_loop L [] = Inr []"
| "getValidKey_loop L (c # cs) =
     (if \<not> iswalpha L c then Inl (Cipher_error ''Invalid key: non-alphabetic character'')
      else case getValidKey_loop L cs of
             Inl e \<Rightarrow> Inl e
           | Inr tmp \<Rightarrow> Inr ((if iswlower L c then toUpper L c else c) # tmp))"

definition getValidKey :: "ctype \<Rightarrow> wstring \<Rightarrow> failure + wstring" where
  "getValidKey L s =
     (if s = [] then Inl (Cipher_error ''Empty key'') else getValidKey_loop L s)"

fun getValidOpenText_loop :: "ctype \<Rightarrow> wstring \<Rightarrow> wstring" where
  "getValidOpenText_loop L [] = []"
| "getValidOpenText_loop L (c # cs) =
     (if iswalpha L c
      then (if iswlower L c then toUpper L c else c) # getValidOpenText_loop L cs
      else getValidOpenText_loop L cs)"

definition getValidOpenText :: "ctype \<Rightarrow> wstring \<Rightarrow> failure + wstring" where
  "getValidOpenText L s =
     (let tmp = getValidOpenText_loop L s
      in if tmp = [] then Inl (Cipher_error ''Empty text, no letters'') else Inr tmp)"

definition getValidCipherText :: "ctype \<Rightarrow> wstring \<Rightarrow> failure + wstring" where
  "getValidCipherText L s =
     (if s = [] then Inl (Cipher_error ''Empty cipher text'')
      else if list_ex (\<lambda>c. \<not> iswupper L c) s then Inl (Cipher_error ''Incorrect data entry'')
      else Inr s)"

text \<open>The two overloads of \<open>convert\<close>: string to indices, indices to string.\<close>

fun convert_s :: "ctype \<Rightarrow> (wchar \<rightharpoonup> int) \<Rightarrow> wstring \<Rightarrow> int list" where
  "convert_s L an [] = []"
| "convert_s L an (c # cs) =
     (case an (toUpper L c) of
        Some i \<Rightarrow> i # convert_s L an cs
      | None \<Rightarrow> convert_s L an cs)"

fun convert_v :: "int list \<Rightarrow> wstring" where
  "convert_v [] = []"
| "convert_v (i # v) =
     (if 0 \<le> i \<and> i < int (length numAlpha) then numAlpha ! nat i # convert_v v
      else convert_v v)"

text \<open>
  The constructor: the loop \<open>alphaNum[numAlpha[i]] = i\<close> fills the map, then the key is
  validated and converted.
\<close>

definition init_alphaNum :: "wchar \<rightharpoonup> int" where
  "init_alphaNum = fold (\<lambda>i m. m(numAlpha ! i \<mapsto> int i)) [0..<length numAlpha] Map.empty"

definition modAlphaCipher :: "ctype \<Rightarrow> wstring \<Rightarrow> failure + modAlphaCipher" where
  "modAlphaCipher L skey =
     (case getValidKey L skey of
        Inl e \<Rightarrow> Inl e
      | Inr k \<Rightarrow> Inr \<lparr> alphaNum = init_alphaNum, key = convert_s L init_alphaNum k \<rparr>)"

text \<open>
  The loops of \<open>encrypt\<close> and \<open>decrypt\<close> update \<open>work\<close> in place, index by index. With an
  empty key the first iteration computes \<open>i % 0\<close>.
\<close>

definition encrypt_loop :: "int list \<Rightarrow> int list \<Rightarrow> failure + int list" where
  "encrypt_loop k work =
     (if work \<noteq> [] \<and> k = [] then Inl Modulo_by_zero
      else Inr (fold (\<lambda>i w. w[i := (w ! i + k ! (i mod length k)) mod int (length numAlpha)])
                  [0..<length work] work))"

definition decrypt_loop :: "int list \<Rightarrow> int list \<Rightarrow> failure + int list" where
  "decrypt_loop k work =
     (if work \<noteq> [] \<and> k = [] then Inl Modulo_by_zero
      else Inr (fold (\<lambda>i w. w[i := (w ! i + int (length numAlpha) - k ! (i mod length k))
                                      mod int (length numAlpha)])
                  [0..<length work] work))"

definition modAlphaCipher_encrypt :: "ctype \<Rightarrow> modAlphaCipher \<Rightarrow> wstring \<Rightarrow> failure + wstring" where
  "modAlphaCipher_encrypt L eng open_text =
     (case getValidOpenText L open_text of
        Inl e \<Rightarrow> Inl e
      | Inr t \<Rightarrow> (case encrypt_loop (key eng) (convert_s L (alphaNum eng) t) of
                    Inl e \<Rightarrow> Inl e
                  | Inr work \<Rightarrow> Inr (convert_v work)))"

definition modAlphaCipher_decrypt :: "ctype \<Rightarrow> modAlphaCipher \<Rightarrow> wstring \<Rightarrow> failure + wstring" where
  "modAlphaCipher_decrypt L eng cipher_text =
     (case getValidCipherText L cipher_text of
        Inl e \<Rightarrow> Inl e
      | Inr t \<Rightarrow> (case decrypt_loop (key eng) (convert_s L (alphaNum eng) t) of
                    Inl e \<Rightarrow> Inl e
                  | Inr work \<Rightarrow> Inr (convert_v work)))"

section \<open>The transposition engine: class \<open>Table\<close>\<close>

record Table =
  cols :: int

definition Table_getValidKey :: "int \<Rightarrow> failure + int" where
  "Table_getValidKey k =
     (if k \<le> 0 then Inl (Cipher_error ''Invalid key: cannot be zero'')
      else if k < 0 then Inl (Cipher_error ''Invalid key: cannot be negative'')
      else if k > 100 then Inl (Cipher_error ''Invalid key: too large'')
      else Inr k)"

definition Table :: "int \<Rightarrow> failure + Table" where
  "Table k = (case Table_getValidKey k of Inl e \<Rightarrow> Inl e | Inr v \<Rightarrow> Inr \<lparr> cols = v \<rparr>)"

text \<open>The local strings \<open>lower\<close> and \<open>upper\<close> of the validation functions, and \<open>L' '\<close>.\<close>

definition lower :: wstring where
  "lower = [1072, 1073, 1074, 1075, 1076, 1077, 1105, 1078, 1079, 1080, 1081,
            1082, 1083, 1084, 1085, 1086, 1087, 1088, 1089, 1090, 1091, 1092,
            1093, 1094, 1095, 1096, 1097, 1098, 1099, 1100, 1101, 1102, 1103]"

definition upper :: wstring where
  "upper = [1040, 1041, 1042, 1043, 1044, 1045, 1025, 1046, 1047, 1048, 1049,
            1050, 1051, 1052, 1053, 1054, 1055, 1056, 1057, 1058, 1059, 1060,
            1061, 1062, 1063, 1064, 1065, 1066, 1067, 1068, 1069, 1070, 1071]"

definition space :: wchar where
  "space = 32"

text \<open>\<open>std::wstring::find\<close> of one character: the first position, or \<open>npos\<close> (here \<open>None\<close>).\<close>

fun wfind :: "wstring \<Rightarrow> wchar \<Rightarrow> nat option" where
  "wfind [] c = None"
| "wfind (x # xs) c = (if x = c then Some 0 else map_option Suc (wfind xs c))"

fun Table_getValidOpenText_loop :: "wstring \<Rightarrow> wstring" where
  "Table_getValidOpenText_loop [] = []"
| "Table_getValidOpenText_loop (c # cs) =
     (if wfind upper c \<noteq> None then c # Table_getValidOpenText_loop cs
      else case wfind lower c of
             Some pos \<Rightarrow> upper ! pos # Table_getValidOpenText_loop cs
           | None \<Rightarrow> Table_getValidOpenText_loop cs)"

definition Table_getValidOpenText :: "wstring \<Rightarrow> failure + wstring" where
  "Table_getValidOpenText s =
     (let tmp = Table_getValidOpenText_loop s
      in if tmp = [] then Inl (Cipher_error ''Empty text: no valid Russian letters'')
         else Inr tmp)"

definition Table_getValidCipherText :: "wstring \<Rightarrow> failure + wstring" where
  "Table_getValidCipherText s =
     (if s = [] then Inl (Cipher_error ''Empty cipher text'')
      else if list_ex (\<lambda>c. wfind upper c = None) s then Inl (Cipher_error ''Invalid cipher text'')
      else Inr s)"

text \<open>
  The grid is a list of rows. \<open>put\<close> is the statement
  \<open>if (index < n) table[row][col] = validText[index++]\<close> shared by both fill loops;
  \<open>emit\<close> is \<open>if (table[row][col] != L' ') result += table[row][col]\<close>.
\<close>

type_synonym grid = "wchar list list"

definition put :: "wstring \<Rightarrow> nat \<Rightarrow> nat \<Rightarrow> grid \<times> nat \<Rightarrow> grid \<times> nat" where
  "put validText row col st =
     (case st of (tbl, index) \<Rightarrow>
        if index < length validText
        then (tbl[row := (tbl ! row)[col := validText ! index]], Suc index)
        else (tbl, index))"

definition emit :: "grid \<Rightarrow> nat \<Rightarrow> nat \<Rightarrow> wstring \<Rightarrow> wstring" where
  "emit tbl row col result =
     (if tbl ! row ! col \<noteq> space then result @ [tbl ! row ! col] else result)"

definition Table_encrypt :: "Table \<Rightarrow> wstring \<Rightarrow> failure + wstring" where
  "Table_encrypt T plain =
     (case Table_getValidOpenText plain of
        Inl e \<Rightarrow> Inl e
      | Inr validText \<Rightarrow>
          let n = length validText in
          if n = 0 then Inr []
          else
            let c = nat (cols T);
                rows = (n + c - 1) div c;
                tbl0 = replicate rows (replicate c space);
                tbl = fst (fold (\<lambda>row. fold (\<lambda>col. put validText row col) [0..<c])
                             [0..<rows] (tbl0, 0))
            in Inr (fold (\<lambda>col. fold (\<lambda>row. emit tbl row col) [0..<rows]) (rev [0..<c]) []))"

definition Table_decrypt :: "Table \<Rightarrow> wstring \<Rightarrow> failure + wstring" where
  "Table_decrypt T cipher =
     (case Table_getValidCipherText cipher of
        Inl e \<Rightarrow> Inl e
      | Inr validText \<Rightarrow>
          let n = length validText in
          if n = 0 then Inr []
          else
            let c = nat (cols T);
                rows = (n + c - 1) div c;
                fullCols = (if n mod c = 0 then c else n mod c);
                tbl0 = replicate rows (replicate c space);
                tbl = fst (fold (\<lambda>col. fold (\<lambda>row. put validText row col)
                                          [0..<(if col \<ge> fullCols then rows - 1 else rows)])
                             (rev [0..<c]) (tbl0, 0))
            in Inr (fold (\<lambda>row. fold (\<lambda>col. emit tbl row col) [0..<c]) [0..<rows] []))"

section \<open>Normalization as the specification words it\<close>

text \<open>
  Discard every character that is not a letter of the alphabet (either case), fold the
  survivors to uppercase with the alphabet's own rule.
\<close>

definition ru_letter :: "wchar \<Rightarrow> bool" where
  "ru_letter c \<longleftrightarrow> c \<in> set upper \<or> c \<in> set lower"

definition ru_toupper :: "wchar \<Rightarrow> wchar" where
  "ru_toupper c = (if 1072 \<le> c \<and> c \<le> 1103 then c - 32 else if c = 1105 then 1025 else c)"

definition normalized :: "wstring \<Rightarrow> wstring" where
  "normalized t = map ru_toupper (filter ru_letter t)"

text \<open>
  What the shift engine needs from the locale: the 66 letters of the alphabet are classified
  as letters, and its uppercase letters are classified as uppercase and left alone by
  \<open>towupper\<close>. The Unicode locales of the C library meet this; the \<open>"C"\<close> locale does not.
\<close>

definition knows_alphabet :: "ctype \<Rightarrow> bool" where
  "knows_alphabet L \<longleftrightarrow>
     list_all (iswalpha L) (upper @ lower) \<and>
     list_all (\<lambda>c. iswupper L c \<and> towupper L c = c) upper"

text \<open>
  A letter from outside the alphabet that the library upper-cases into the alphabet, at the
  first or at the second \<open>towupper\<close> (validation and \<open>convert\<close> both upper-case). Unicode
  locales have such letters (\<open>U+1C80\<close> is upper-cased to \<open>U+0412\<close>): the engine keeps them,
  the normalization of the specification does not.
\<close>

definition foreign_folded :: "ctype \<Rightarrow> wchar \<Rightarrow> bool" where
  "foreign_folded L c \<longleftrightarrow>
     \<not> ru_letter c \<and> iswalpha L c \<and>
     (ru_letter (towupper L c) \<or> ru_letter (towupper L (towupper L c)))"

text \<open>
  The position of an alphabet symbol in \<open>numAlpha\<close>, in closed form (lemma \<open>indexOf_nth\<close>
  below relates it to the list).
\<close>

definition indexOf :: "wchar \<Rightarrow> nat" where
  "indexOf c = (if c = 1025 then 6 else if c \<le> 1045 then c - 1040 else c - 1039)"

section \<open>The route of the transposition, as the specification words it\<close>

text \<open>
  The text is laid row by row into a grid of \<open>c\<close> columns and \<open>ceil (n / c)\<close> rows; the cell
  in row \<open>r\<close> and column \<open>j\<close> is filled, with the symbol at position \<open>r * c + j\<close>, when that
  position exists. The route reads the columns from the last to the first, each from top to
  bottom, and emits the filled cells only.
\<close>

definition route :: "nat \<Rightarrow> wstring \<Rightarrow> wstring" where
  "route c t =
     (let n = length t; rows = (n + c - 1) div c
      in concat (map (\<lambda>col. map (\<lambda>row. t ! (row * c + col))
                                (filter (\<lambda>row. row * c + col < n) [0..<rows]))
                     (rev [0..<c])))"

text \<open>A grid given by its cells, and the cells' content after the row-major fill.\<close>

definition grid_of :: "nat \<Rightarrow> nat \<Rightarrow> (nat \<Rightarrow> nat \<Rightarrow> wchar) \<Rightarrow> grid" where
  "grid_of R C F = map (\<lambda>r. map (F r) [0..<C]) [0..<R]"

definition cell :: "wstring \<Rightarrow> nat \<Rightarrow> nat \<Rightarrow> nat \<Rightarrow> wchar" where
  "cell t C r c = (if r * C + c < length t then t ! (r * C + c) else space)"
section \<open>The alphabet and the symbol map\<close>


lemma numAlpha_upt: "numAlpha = [1040..<1046] @ 1025 # [1046..<1072]"
  by (simp add: numAlpha_def)

lemma upper_numAlpha: "upper = numAlpha"
  by (simp add: upper_def numAlpha_def)

lemma lower_upt: "lower = [1072..<1078] @ 1105 # [1078..<1104]"
  by (simp add: lower_def)

lemma length_numAlpha: "length numAlpha = 33"
  by (simp add: numAlpha_def)

lemma distinct_numAlpha: "distinct numAlpha"
  by (simp add: numAlpha_def)

lemma set_numAlpha: "c \<in> set numAlpha \<longleftrightarrow> (1040 \<le> c \<and> c \<le> 1071) \<or> c = 1025"
  unfolding numAlpha_upt by (auto simp del: upt_rec_numeral)

lemma set_lower: "c \<in> set lower \<longleftrightarrow> (1072 \<le> c \<and> c \<le> 1103) \<or> c = 1105"
  unfolding lower_upt by (auto simp del: upt_rec_numeral)

lemma index_map_hit:
  "k \<le> length xs \<Longrightarrow> distinct xs \<Longrightarrow> i < k \<Longrightarrow>
   fold (\<lambda>i m. m(xs ! i \<mapsto> int i)) [0..<k] Map.empty (xs ! i) = Some (int i)"
proof (induction k)
  case 0
  then show ?case by simp
next
  case (Suc k)
  show ?case
  proof (cases "i = k")
    case True
    then show ?thesis by simp
  next
    case False
    with Suc.prems have "i < k" "xs ! k \<noteq> xs ! i"
      by (auto simp: nth_eq_iff_index_eq)
    with Suc show ?thesis by simp
  qed
qed

lemma index_map_miss:
  "k \<le> length xs \<Longrightarrow> c \<notin> set xs \<Longrightarrow>
   fold (\<lambda>i m. m(xs ! i \<mapsto> int i)) [0..<k] Map.empty c = None"
  by (induction k) auto

lemma init_alphaNum_nth: "i < 33 \<Longrightarrow> init_alphaNum (numAlpha ! i) = Some (int i)"
  unfolding init_alphaNum_def
  by (rule index_map_hit) (simp_all add: distinct_numAlpha length_numAlpha)

lemma init_alphaNum_None: "c \<notin> set numAlpha \<Longrightarrow> init_alphaNum c = None"
  unfolding init_alphaNum_def by (rule index_map_miss) simp_all

lemma init_alphaNum_Some:
  assumes "init_alphaNum c = Some i"
  shows "0 \<le> i \<and> i < 33 \<and> numAlpha ! nat i = c"
proof -
  from assms have "c \<in> set numAlpha" using init_alphaNum_None by force
  then obtain j where j: "j < 33" "numAlpha ! j = c"
    by (auto simp: in_set_conv_nth length_numAlpha)
  with init_alphaNum_nth[of j] assms show ?thesis by auto
qed

lemma indexOf_nth: "c \<in> set numAlpha \<Longrightarrow> indexOf c < 33 \<and> numAlpha ! indexOf c = c"
  unfolding set_numAlpha numAlpha_upt indexOf_def
  by (auto simp: nth_append nth_Cons' simp del: upt_rec_numeral)

lemma init_alphaNum_closed:
  "init_alphaNum c = (if c \<in> set numAlpha then Some (int (indexOf c)) else None)"
  using init_alphaNum_nth[of "indexOf c"] indexOf_nth[of c] init_alphaNum_None[of c]
  by auto

section \<open>The shift engine in closed form\<close>


lemma fold_update_map:
  "n \<le> length w \<Longrightarrow>
   fold (\<lambda>i w. w[i := f i (w ! i)]) [0..<n] w =
   map (\<lambda>i. if i < n then f i (w ! i) else w ! i) [0..<length w]"
proof (induction n)
  case 0
  then show ?case by (simp add: map_nth)
next
  case (Suc n)
  then have n: "n < length w" by simp
  have "fold (\<lambda>i w. w[i := f i (w ! i)]) [0..<Suc n] w =
        (map (\<lambda>i. if i < n then f i (w ! i) else w ! i) [0..<length w])
          [n := f n (map (\<lambda>i. if i < n then f i (w ! i) else w ! i) [0..<length w] ! n)]"
    using Suc by simp
  also have "\<dots> = map (\<lambda>i. if i < Suc n then f i (w ! i) else w ! i) [0..<length w]"
    using n by (auto intro!: nth_equalityI simp: nth_list_update less_Suc_eq)
  finally show ?case .
qed

lemma encrypt_loop_map:
  "k \<noteq> [] \<Longrightarrow>
   encrypt_loop k w = Inr (map (\<lambda>i. (w ! i + k ! (i mod length k)) mod 33) [0..<length w])"
  unfolding encrypt_loop_def
  using fold_update_map[of "length w" w "\<lambda>i x. (x + k ! (i mod length k)) mod 33"]
  by (simp add: length_numAlpha)

lemma decrypt_loop_map:
  "k \<noteq> [] \<Longrightarrow>
   decrypt_loop k w = Inr (map (\<lambda>i. (w ! i + 33 - k ! (i mod length k)) mod 33) [0..<length w])"
  unfolding decrypt_loop_def
  using fold_update_map[of "length w" w "\<lambda>i x. (x + 33 - k ! (i mod length k)) mod 33"]
  by (simp add: length_numAlpha)

lemma convert_s_range:
  "i \<in> set (convert_s L init_alphaNum s) \<Longrightarrow> 0 \<le> i \<and> i < 33"
  by (induction s) (auto split: option.splits dest: init_alphaNum_Some)

lemma convert_v_map:
  "\<forall>i\<in>set v. 0 \<le> i \<and> i < 33 \<Longrightarrow> convert_v v = map (\<lambda>i. numAlpha ! nat i) v"
  by (induction v) (auto simp: length_numAlpha)

lemma toUpper_upper:
  "c \<in> set numAlpha \<Longrightarrow> towupper L c = c \<Longrightarrow> toUpper L c = c"
  by (auto simp: toUpper_def set_numAlpha)

lemma convert_s_alphabet:
  "\<forall>c\<in>set s. c \<in> set numAlpha \<and> towupper L c = c \<Longrightarrow>
   convert_s L init_alphaNum s = map (\<lambda>c. int (indexOf c)) s"
  by (induction s) (auto simp: toUpper_upper init_alphaNum_closed)

lemma indexOf_inverse: "i < 33 \<Longrightarrow> indexOf (numAlpha ! i) = i"
proof -
  assume i: "i < 33"
  then have "numAlpha ! i \<in> set numAlpha" by (simp add: length_numAlpha)
  then have "indexOf (numAlpha ! i) < 33" "numAlpha ! indexOf (numAlpha ! i) = numAlpha ! i"
    using indexOf_nth by blast+
  with i show ?thesis
    using distinct_numAlpha by (simp add: nth_eq_iff_index_eq length_numAlpha)
qed

lemma ru_toupper_lower: "c \<in> set lower \<Longrightarrow> ru_toupper c \<in> set numAlpha"
  by (auto simp: set_lower set_numAlpha ru_toupper_def)

lemma ru_toupper_upper: "c \<in> set numAlpha \<Longrightarrow> ru_toupper c = c"
  by (auto simp: set_numAlpha ru_toupper_def)

lemma toUpper_lower: "c \<in> set lower \<Longrightarrow> toUpper L c = ru_toupper c"
  by (auto simp: set_lower toUpper_def ru_toupper_def)

lemma knows_alphabetD:
  assumes "knows_alphabet L"
  shows "ru_letter c \<Longrightarrow> iswalpha L c"
    and "c \<in> set numAlpha \<Longrightarrow> iswupper L c"
    and "c \<in> set numAlpha \<Longrightarrow> towupper L c = c"
  using assms
  by (auto simp: knows_alphabet_def ru_letter_def list_all_iff upper_numAlpha)

text \<open>The character pushed by the validation loops, then upper-cased again by convert.\<close>

lemma twice_letter:
  assumes "knows_alphabet L" "ru_letter c"
  shows "toUpper L (if iswlower L c then toUpper L c else c) = ru_toupper c"
proof (cases "c \<in> set lower")
  case True
  then have u: "ru_toupper c \<in> set numAlpha" by (rule ru_toupper_lower)
  then have "toUpper L (ru_toupper c) = ru_toupper c"
    using knows_alphabetD(3)[OF assms(1)] by (simp add: toUpper_upper)
  with True show ?thesis by (simp add: toUpper_lower)
next
  case False
  with assms(2) have u: "c \<in> set numAlpha" by (simp add: ru_letter_def upper_numAlpha)
  then have "toUpper L c = c"
    using knows_alphabetD(3)[OF assms(1)] by (simp add: toUpper_upper)
  with u show ?thesis by (simp add: ru_toupper_upper)
qed

lemma toUpper_foreign:
  assumes "\<not> ru_letter c"
  shows "toUpper L c = towupper L c"
  using assms by (auto simp: toUpper_def ru_letter_def set_lower)

lemma twice_foreign:
  assumes "\<not> ru_letter c" "iswalpha L c" "\<not> foreign_folded L c"
  shows "toUpper L (if iswlower L c then toUpper L c else c) \<notin> set numAlpha"
proof -
  from assms have 1: "\<not> ru_letter (towupper L c)"
    and 2: "\<not> ru_letter (towupper L (towupper L c))"
    by (simp_all add: foreign_folded_def)
  have "\<not> ru_letter (toUpper L (if iswlower L c then toUpper L c else c))"
  proof (cases "iswlower L c")
    case True
    then show ?thesis
      using 1 2 by (simp add: toUpper_foreign[OF assms(1)] toUpper_foreign[OF 1])
  next
    case False
    then show ?thesis
      using 1 by (simp add: toUpper_foreign[OF assms(1)])
  qed
  then show ?thesis by (simp add: ru_letter_def upper_numAlpha)
qed

lemma ru_toupper_in: "ru_letter c \<Longrightarrow> ru_toupper c \<in> set numAlpha"
  using ru_toupper_lower ru_toupper_upper by (auto simp: ru_letter_def upper_numAlpha)

lemma convert_s_open_text:
  assumes "knows_alphabet L" and "\<not> list_ex (foreign_folded L) t"
  shows "convert_s L init_alphaNum (getValidOpenText_loop L t) =
         map (\<lambda>c. int (indexOf c)) (normalized t)"
  using assms(2)
proof (induction t)
  case Nil
  then show ?case by (simp add: normalized_def)
next
  case (Cons c t)
  then have IH: "convert_s L init_alphaNum (getValidOpenText_loop L t) =
                 map (\<lambda>c. int (indexOf c)) (normalized t)"
    and nf: "\<not> foreign_folded L c"
    by simp_all
  show ?case
  proof (cases "ru_letter c")
    case True
    then have "iswalpha L c" by (rule knows_alphabetD(1)[OF assms(1)])
    moreover have "init_alphaNum (ru_toupper c) = Some (int (indexOf (ru_toupper c)))"
      using ru_toupper_in[OF True] by (simp add: init_alphaNum_closed)
    ultimately show ?thesis
      using True IH twice_letter[OF assms(1) True] by (simp add: normalized_def)
  next
    case False
    show ?thesis
    proof (cases "iswalpha L c")
      case True
      have "init_alphaNum (toUpper L (if iswlower L c then toUpper L c else c)) = None"
        using twice_foreign[OF False True nf] by (rule init_alphaNum_None)
      with True False IH show ?thesis by (simp add: normalized_def)
    next
      case na: False
      with False IH show ?thesis by (simp add: normalized_def)
    qed
  qed
qed

text \<open>A letter of the alphabet in the text is kept, whatever else the text holds.\<close>

lemma convert_s_keeps_letter:
  assumes "knows_alphabet L" and "list_ex ru_letter t"
  shows "convert_s L init_alphaNum (getValidOpenText_loop L t) \<noteq> []"
  using assms(2)
proof (induction t)
  case Nil
  then show ?case by simp
next
  case (Cons c t)
  show ?case
  proof (cases "ru_letter c")
    case True
    then have "iswalpha L c" by (rule knows_alphabetD(1)[OF assms(1)])
    moreover have "init_alphaNum (ru_toupper c) = Some (int (indexOf (ru_toupper c)))"
      using ru_toupper_in[OF True] by (simp add: init_alphaNum_closed)
    ultimately show ?thesis
      using twice_letter[OF assms(1) True] by simp
  next
    case False
    with Cons have "convert_s L init_alphaNum (getValidOpenText_loop L t) \<noteq> []" by simp
    then show ?thesis by (simp split: option.split)
  qed
qed

lemma normalized_in: "c \<in> set (normalized t) \<Longrightarrow> c \<in> set numAlpha"
  by (auto simp: normalized_def ru_toupper_in)

lemma normalized_nonempty: "normalized t \<noteq> [] \<longleftrightarrow> list_ex ru_letter t"
  by (auto simp: normalized_def list_ex_iff filter_empty_conv)

lemma getValidKey_loop_Inr:
  "getValidKey_loop L s = Inr k \<Longrightarrow> k = getValidOpenText_loop L s"
  by (induction s arbitrary: k) (auto split: if_splits sum.splits)

lemma constructor_key:
  "modAlphaCipher L skey = Inr eng \<Longrightarrow>
   alphaNum eng = init_alphaNum \<and>
   key eng = convert_s L init_alphaNum (getValidOpenText_loop L skey)"
  by (auto simp: modAlphaCipher_def getValidKey_def split: sum.splits if_splits
           dest: getValidKey_loop_Inr)

lemma knows_alphabet_unicode: "knows_alphabet unicode_ctype"
  by (auto simp: knows_alphabet_def unicode_ctype_def list_all_iff
                 upper_numAlpha set_numAlpha set_lower)

lemma eval_constructor:
  "modAlphaCipher unicode_ctype [1052, 1048, 1056] =
     Inr \<lparr> alphaNum = init_alphaNum, key = [13, 9, 17] \<rparr>"
  by (simp add: modAlphaCipher_def getValidKey_def unicode_ctype_def toUpper_def
                init_alphaNum_closed set_numAlpha indexOf_def)

lemma normalized_MIR: "normalized [1052, 1048, 1056] = [1052, 1048, 1056]"
  by (simp add: normalized_def ru_letter_def upper_numAlpha set_numAlpha ru_toupper_def)

lemma open_text_loop_empty:
  "getValidOpenText_loop L t = [] \<longleftrightarrow> \<not> list_ex (iswalpha L) t"
  by (induction t) simp_all

lemma open_text_nonempty:
  assumes "list_all (iswalpha L) (upper @ lower)" and "normalized t \<noteq> []"
  shows "getValidOpenText L t = Inr (getValidOpenText_loop L t)"
proof -
  from assms(2) obtain c where c: "c \<in> set t" "ru_letter c"
    by (auto simp: normalized_nonempty list_ex_iff)
  then have "iswalpha L c"
    using assms(1) by (auto simp: ru_letter_def list_all_iff)
  with c(1) have "list_ex (iswalpha L) t" by (auto simp: list_ex_iff)
  then have "getValidOpenText_loop L t \<noteq> []" by (simp add: open_text_loop_empty)
  then show ?thesis by (simp add: getValidOpenText_def)
qed

lemma cipher_text_valid:
  assumes "knows_alphabet L" "s \<noteq> []" "set s \<subseteq> set numAlpha"
  shows "getValidCipherText L s = Inr s"
    and "convert_s L init_alphaNum s = map (\<lambda>c. int (indexOf c)) s"
proof -
  have "\<forall>c\<in>set s. iswupper L c" using assms knows_alphabetD(2) by blast
  then show "getValidCipherText L s = Inr s"
    using assms(2) by (simp add: getValidCipherText_def list_ex_iff)
  have "\<forall>c\<in>set s. c \<in> set numAlpha \<and> towupper L c = c"
    using assms knows_alphabetD(3) by blast
  then show "convert_s L init_alphaNum s = map (\<lambda>c. int (indexOf c)) s"
    by (rule convert_s_alphabet)
qed

lemma key_nth_range:
  assumes "modAlphaCipher L skey = Inr eng" "key eng \<noteq> []"
  shows "0 \<le> key eng ! (i mod length (key eng)) \<and> key eng ! (i mod length (key eng)) < 33"
proof -
  have "key eng ! (i mod length (key eng)) \<in> set (key eng)"
    using assms(2) by simp
  then show ?thesis
    using constructor_key[OF assms(1)] convert_s_range by metis
qed

text \<open>The two transforms on the vector of indices, for every locale and every engine.\<close>

lemma shift_encrypt_general:
  assumes k: "key eng \<noteq> []" and v: "getValidOpenText L t = Inr v"
  shows "modAlphaCipher_encrypt L eng t =
         Inr (map (\<lambda>i. numAlpha ! nat ((convert_s L (alphaNum eng) v ! i +
                                         key eng ! (i mod length (key eng))) mod 33))
                [0..<length (convert_s L (alphaNum eng) v)])"
proof -
  let ?p = "convert_s L (alphaNum eng) v"
  let ?w = "map (\<lambda>i. (?p ! i + key eng ! (i mod length (key eng))) mod 33) [0..<length ?p]"
  have "encrypt_loop (key eng) ?p = Inr ?w"
    by (simp add: encrypt_loop_map[OF k])
  moreover have "convert_v ?w = map (\<lambda>i. numAlpha ! nat i) ?w"
    by (rule convert_v_map) auto
  ultimately show ?thesis
    by (simp add: modAlphaCipher_encrypt_def v comp_def)
qed

lemma shift_decrypt_general:
  assumes k: "key eng \<noteq> []" and v: "getValidCipherText L s = Inr v"
  shows "modAlphaCipher_decrypt L eng s =
         Inr (map (\<lambda>i. numAlpha ! nat ((convert_s L (alphaNum eng) v ! i + 33 -
                                         key eng ! (i mod length (key eng))) mod 33))
                [0..<length (convert_s L (alphaNum eng) v)])"
proof -
  let ?p = "convert_s L (alphaNum eng) v"
  let ?w = "map (\<lambda>i. (?p ! i + 33 - key eng ! (i mod length (key eng))) mod 33) [0..<length ?p]"
  have "decrypt_loop (key eng) ?p = Inr ?w"
    by (simp add: decrypt_loop_map[OF k])
  moreover have "convert_v ?w = map (\<lambda>i. numAlpha ! nat i) ?w"
    by (rule convert_v_map) auto
  ultimately show ?thesis
    by (simp add: modAlphaCipher_decrypt_def v comp_def)
qed

lemma shift_encrypt_closed:
  assumes L: "knows_alphabet L" and f: "\<not> list_ex (foreign_folded L) t"
      and eng: "modAlphaCipher L skey = Inr eng"
      and k: "key eng \<noteq> []" and t: "normalized t \<noteq> []"
  shows "modAlphaCipher_encrypt L eng t =
         Inr (map (\<lambda>i. numAlpha ! nat ((int (indexOf (normalized t ! i)) +
                                         key eng ! (i mod length (key eng))) mod 33))
                [0..<length (normalized t)])"
proof -
  have an: "alphaNum eng = init_alphaNum" using constructor_key[OF eng] by simp
  have a: "list_all (iswalpha L) (upper @ lower)" using L by (simp add: knows_alphabet_def)
  show ?thesis
    using shift_encrypt_general[OF k open_text_nonempty[OF a t]]
    by (simp add: an convert_s_open_text[OF L f])
qed

lemma shift_decrypt_closed:
  assumes L: "knows_alphabet L" and eng: "modAlphaCipher L skey = Inr eng"
      and k: "key eng \<noteq> []" and s: "s \<noteq> []" "set s \<subseteq> set numAlpha"
  shows "modAlphaCipher_decrypt L eng s =
         Inr (map (\<lambda>i. numAlpha ! nat ((int (indexOf (s ! i)) + 33 -
                                         key eng ! (i mod length (key eng))) mod 33))
                [0..<length s])"
proof -
  have an: "alphaNum eng = init_alphaNum" using constructor_key[OF eng] by simp
  show ?thesis
    using shift_decrypt_general[OF k cipher_text_valid(1)[OF L s]]
    by (simp add: an cipher_text_valid(2)[OF L s])
qed

lemma shift_inverse:
  assumes "0 \<le> p" "p < 33"
  shows "((p + k) mod 33 + 33 - k) mod 33 = (p::int)"
proof -
  have "((p + k) mod 33 + 33 - k) mod 33 = ((p + k) mod 33 + (33 - k)) mod 33"
    by (simp add: algebra_simps)
  also have "\<dots> = (p + k + (33 - k)) mod 33"
    by (simp only: mod_add_left_eq)
  also have "\<dots> = p"
    using assms by simp
  finally show ?thesis .
qed

lemma shift_round_trip:
  assumes L: "knows_alphabet L" and f: "\<not> list_ex (foreign_folded L) t"
      and eng: "modAlphaCipher L skey = Inr eng"
      and k: "key eng \<noteq> []" and t: "normalized t \<noteq> []"
  shows "\<exists>ct. modAlphaCipher_encrypt L eng t = Inr ct \<and>
              modAlphaCipher_decrypt L eng ct = Inr (normalized t)"
proof -
  let ?n = "length (normalized t)"
  let ?k = "\<lambda>i. key eng ! (i mod length (key eng))"
  let ?e = "\<lambda>i. nat ((int (indexOf (normalized t ! i)) + ?k i) mod 33)"
  let ?ct = "map (\<lambda>i. numAlpha ! ?e i) [0..<?n]"
  have enc: "modAlphaCipher_encrypt L eng t = Inr ?ct"
    by (rule shift_encrypt_closed[OF assms])
  have e33: "?e i < 33" for i by simp
  have ct1: "?ct \<noteq> []" using t by simp
  have ct2: "set ?ct \<subseteq> set numAlpha"
    using e33 by (auto simp: length_numAlpha)
  have dec: "modAlphaCipher_decrypt L eng ?ct =
             Inr (map (\<lambda>i. numAlpha ! nat ((int (indexOf (?ct ! i)) + 33 - ?k i) mod 33))
                    [0..<length ?ct])"
    by (rule shift_decrypt_closed[OF L eng k ct1 ct2])
  have "map (\<lambda>i. numAlpha ! nat ((int (indexOf (?ct ! i)) + 33 - ?k i) mod 33)) [0..<length ?ct]
        = normalized t"
  proof (rule nth_equalityI)
    show "length (map (\<lambda>i. numAlpha ! nat ((int (indexOf (?ct ! i)) + 33 - ?k i) mod 33))
                    [0..<length ?ct]) = length (normalized t)"
      by simp
  next
    fix i
    assume "i < length (map (\<lambda>i. numAlpha ! nat ((int (indexOf (?ct ! i)) + 33 - ?k i) mod 33))
                          [0..<length ?ct])"
    then have i: "i < ?n" by simp
    then have c: "normalized t ! i \<in> set numAlpha"
      using normalized_in nth_mem by blast
    have p: "indexOf (normalized t ! i) < 33" using indexOf_nth[OF c] by simp
    have kr: "0 \<le> ?k i \<and> ?k i < 33" by (rule key_nth_range[OF eng k])
    have "indexOf (?ct ! i) = ?e i" using i by (simp add: indexOf_inverse)
    moreover have "(int (?e i) + 33 - ?k i) mod 33 = int (indexOf (normalized t ! i))"
      using p kr by (simp add: shift_inverse)
    ultimately show "map (\<lambda>i. numAlpha ! nat ((int (indexOf (?ct ! i)) + 33 - ?k i) mod 33))
                       [0..<length ?ct] ! i = normalized t ! i"
      using i indexOf_nth[OF c] by simp
  qed
  with enc dec show ?thesis by simp
qed

section \<open>The transposition engine in closed form\<close>


subsection \<open>Validation of the transposition engine\<close>

lemma wfind_None: "wfind s c = None \<longleftrightarrow> c \<notin> set s"
  by (induction s) auto

lemma wfind_Some: "wfind s c = Some p \<Longrightarrow> p < length s \<and> s ! p = c"
  by (induction s arbitrary: p) (auto split: if_splits)

lemma upper_nth_lower: "p < 33 \<Longrightarrow> upper ! p = ru_toupper (lower ! p)"
  unfolding upper_numAlpha numAlpha_upt lower_upt ru_toupper_def
  by (auto simp: nth_append nth_Cons' simp del: upt_rec_numeral)

lemma length_lower: "length lower = 33"
  by (simp add: lower_def)

lemma Table_open_text_normalized: "Table_getValidOpenText_loop t = normalized t"
proof (induction t)
  case Nil
  then show ?case by (simp add: normalized_def)
next
  case (Cons c t)
  show ?case
  proof (cases "c \<in> set upper")
    case True
    then have "ru_toupper c = c" "wfind upper c \<noteq> None"
      by (simp_all add: upper_numAlpha ru_toupper_upper wfind_None)
    with True Cons show ?thesis
      by (simp add: normalized_def ru_letter_def)
  next
    case up: False
    then have u: "wfind upper c = None" by (simp add: wfind_None)
    show ?thesis
    proof (cases "wfind lower c")
      case None
      then have "c \<notin> set lower" by (simp add: wfind_None)
      with up u Cons None show ?thesis
        by (simp add: normalized_def ru_letter_def)
    next
      case (Some p)
      then have p: "p < 33" "lower ! p = c"
        using wfind_Some[of lower c p] by (simp_all add: length_lower)
      then have "c \<in> set lower" using length_lower nth_mem by metis
      with up u Cons Some p upper_nth_lower[of p] show ?thesis
        by (simp add: normalized_def ru_letter_def)
    qed
  qed
qed

lemma Table_cipher_text_valid:
  "s \<noteq> [] \<Longrightarrow> set s \<subseteq> set upper \<Longrightarrow> Table_getValidCipherText s = Inr s"
  by (auto simp: Table_getValidCipherText_def list_ex_iff wfind_None)

lemma normalized_upper: "set (normalized t) \<subseteq> set upper"
  using normalized_in by (auto simp: upper_numAlpha)

lemma normalized_id: "set s \<subseteq> set upper \<Longrightarrow> normalized s = s"
proof (induction s)
  case Nil
  then show ?case by (simp add: normalized_def)
next
  case (Cons c s)
  then have "c \<in> set numAlpha" by (simp add: upper_numAlpha)
  with Cons show ?case
    by (simp add: normalized_def ru_letter_def upper_numAlpha ru_toupper_upper)
qed

lemma space_not_upper: "space \<notin> set upper"
  by (simp add: space_def upper_numAlpha set_numAlpha)

lemma Table_cols: "Table k = Inr T \<Longrightarrow> cols T = k \<and> 1 \<le> k \<and> k \<le> 100"
  by (auto simp: Table_def Table_getValidKey_def split: if_splits)

subsection \<open>Grids\<close>

lemma length_grid_of: "length (grid_of R C F) = R"
  by (simp add: grid_of_def)

lemma nth_grid_of: "r < R \<Longrightarrow> grid_of R C F ! r = map (F r) [0..<C]"
  by (simp add: grid_of_def)

lemma nth_nth_grid_of: "r < R \<Longrightarrow> c < C \<Longrightarrow> grid_of R C F ! r ! c = F r c"
  by (simp add: grid_of_def)

lemma grid_of_cong:
  "(\<And>r c. r < R \<Longrightarrow> c < C \<Longrightarrow> F r c = G r c) \<Longrightarrow> grid_of R C F = grid_of R C G"
  by (simp add: grid_of_def)

lemma replicate_grid: "replicate R (replicate C x) = grid_of R C (\<lambda>r c. x)"
  by (simp add: grid_of_def map_replicate_const)

text \<open>One \<open>put\<close> into a grid, when a symbol is left.\<close>

lemma put_grid_of:
  assumes "r < R" "c < C" "idx < length vt"
  shows "put vt r c (grid_of R C F, idx) =
         (grid_of R C (\<lambda>r' c'. if r' = r \<and> c' = c then vt ! idx else F r' c'), Suc idx)"
proof -
  have "(grid_of R C F)[r := (grid_of R C F ! r)[c := vt ! idx]] =
        grid_of R C (\<lambda>r' c'. if r' = r \<and> c' = c then vt ! idx else F r' c')"
  proof (rule nth_equalityI)
    show "length ((grid_of R C F)[r := (grid_of R C F ! r)[c := vt ! idx]]) =
          length (grid_of R C (\<lambda>r' c'. if r' = r \<and> c' = c then vt ! idx else F r' c'))"
      by (simp add: length_grid_of)
  next
    fix i
    assume "i < length ((grid_of R C F)[r := (grid_of R C F ! r)[c := vt ! idx]])"
    then have i: "i < R" by (simp add: length_grid_of)
    show "(grid_of R C F)[r := (grid_of R C F ! r)[c := vt ! idx]] ! i =
          grid_of R C (\<lambda>r' c'. if r' = r \<and> c' = c then vt ! idx else F r' c') ! i"
      using i assms(1,2)
      by (auto simp: nth_list_update length_grid_of nth_grid_of intro!: nth_equalityI)
  qed
  with assms(3) show ?thesis by (simp add: put_def)
qed

lemma put_exhausted: "length vt \<le> idx \<Longrightarrow> put vt r c (tbl, idx) = (tbl, idx)"
  by (simp add: put_def)


subsection \<open>The fill loops\<close>

lemma fill_row:
  assumes "r < R" "k \<le> C" "idx \<le> length vt"
  shows "fold (\<lambda>col. put vt r col) [0..<k] (grid_of R C F, idx) =
         (grid_of R C (\<lambda>r' c'. if r' = r \<and> c' < k \<and> idx + c' < length vt
                                then vt ! (idx + c') else F r' c'),
          min (length vt) (idx + k))"
  using assms(2)
proof (induction k)
  case 0
  with assms(3) show ?case by (simp add: min_def)
next
  case (Suc k)
  let ?F = "\<lambda>k r' c'. if r' = r \<and> c' < k \<and> idx + c' < length vt
                       then vt ! (idx + c') else F r' c'"
  have step: "fold (\<lambda>col. put vt r col) [0..<Suc k] (grid_of R C F, idx) =
              put vt r k (grid_of R C (?F k), min (length vt) (idx + k))"
    using Suc by simp
  show ?case
  proof (cases "idx + k < length vt")
    case True
    then have m: "min (length vt) (idx + k) = idx + k" by simp
    have "put vt r k (grid_of R C (?F k), idx + k) =
          (grid_of R C (\<lambda>r' c'. if r' = r \<and> c' = k then vt ! (idx + k) else ?F k r' c'),
           Suc (idx + k))"
      using assms(1) Suc.prems True by (intro put_grid_of) simp_all
    moreover have "grid_of R C (\<lambda>r' c'. if r' = r \<and> c' = k then vt ! (idx + k) else ?F k r' c')
                 = grid_of R C (?F (Suc k))"
      using True by (intro grid_of_cong) (auto simp: less_Suc_eq)
    moreover have "min (length vt) (idx + Suc k) = Suc (idx + k)"
      using True by simp
    ultimately show ?thesis using step m by simp
  next
    case False
    then have m: "min (length vt) (idx + k) = length vt" by simp
    have "put vt r k (grid_of R C (?F k), length vt) = (grid_of R C (?F k), length vt)"
      by (simp add: put_exhausted)
    moreover have "grid_of R C (?F k) = grid_of R C (?F (Suc k))"
      using False by (intro grid_of_cong) (auto simp: less_Suc_eq)
    moreover have "min (length vt) (idx + Suc k) = length vt"
      using False by simp
    ultimately show ?thesis using step m by simp
  qed
qed

lemma fill_rows:
  assumes "k \<le> R"
  shows "fold (\<lambda>row. fold (\<lambda>col. put vt row col) [0..<C]) [0..<k]
           (replicate R (replicate C space), 0) =
         (grid_of R C (\<lambda>r c. if r < k then cell vt C r c else space),
          min (length vt) (k * C))"
  using assms
proof (induction k)
  case 0
  then show ?case by (simp add: replicate_grid)
next
  case (Suc k)
  let ?G = "\<lambda>k r c. if r < k then cell vt C r c else space"
  let ?i = "min (length vt) (k * C)"
  have "fold (\<lambda>row. fold (\<lambda>col. put vt row col) [0..<C]) [0..<Suc k]
          (replicate R (replicate C space), 0) =
        fold (\<lambda>col. put vt k col) [0..<C] (grid_of R C (?G k), ?i)"
    using Suc by simp
  also have "\<dots> = (grid_of R C (\<lambda>r' c'. if r' = k \<and> c' < C \<and> ?i + c' < length vt
                                         then vt ! (?i + c') else ?G k r' c'),
                     min (length vt) (?i + C))"
    using Suc.prems by (intro fill_row) simp_all
  also have "grid_of R C (\<lambda>r' c'. if r' = k \<and> c' < C \<and> ?i + c' < length vt
                                   then vt ! (?i + c') else ?G k r' c') =
             grid_of R C (?G (Suc k))"
    by (intro grid_of_cong) (auto simp: cell_def min_def less_Suc_eq)
  also have "min (length vt) (?i + C) = min (length vt) (Suc k * C)"
    by (simp add: min_def)
  finally show ?case .
qed

lemma fill_col:
  assumes "c < C" "h \<le> R" "idx + h \<le> length vt"
  shows "fold (\<lambda>row. put vt row c) [0..<h] (grid_of R C F, idx) =
         (grid_of R C (\<lambda>r' c'. if c' = c \<and> r' < h then vt ! (idx + r') else F r' c'),
          idx + h)"
  using assms(2,3)
proof (induction h)
  case 0
  then show ?case by simp
next
  case (Suc h)
  let ?F = "\<lambda>h r' c'. if c' = c \<and> r' < h then vt ! (idx + r') else F r' c'"
  have "fold (\<lambda>row. put vt row c) [0..<Suc h] (grid_of R C F, idx) =
        put vt h c (grid_of R C (?F h), idx + h)"
    using Suc by simp
  also have "\<dots> = (grid_of R C (\<lambda>r' c'. if r' = h \<and> c' = c then vt ! (idx + h) else ?F h r' c'),
                     Suc (idx + h))"
    using assms(1) Suc.prems by (intro put_grid_of) simp_all
  also have "grid_of R C (\<lambda>r' c'. if r' = h \<and> c' = c then vt ! (idx + h) else ?F h r' c') =
             grid_of R C (?F (Suc h))"
    by (intro grid_of_cong) (auto simp: less_Suc_eq)
  finally show ?case by simp
qed

text \<open>
  The column loop of \<open>decrypt\<close>, over any list of distinct columns, on a text that holds the
  columns' contents one after the other.
\<close>

lemma fill_cols:
  assumes "distinct cs" "\<forall>c\<in>set cs. c < C \<and> h c \<le> R"
      and "vt = pre @ concat (map (\<lambda>c. map (\<lambda>r. g r c) [0..<h c]) cs) @ post"
  shows "fold (\<lambda>col. fold (\<lambda>row. put vt row col) [0..<h col]) cs (grid_of R C F, length pre) =
         (grid_of R C (\<lambda>r c. if c \<in> set cs \<and> r < h c then g r c else F r c),
          length pre + length (concat (map (\<lambda>c. map (\<lambda>r. g r c) [0..<h c]) cs)))"
  using assms
proof (induction cs arbitrary: F pre)
  case Nil
  then show ?case by simp
next
  case (Cons c cs)
  let ?col = "map (\<lambda>r. g r c) [0..<h c]"
  let ?rest = "concat (map (\<lambda>c. map (\<lambda>r. g r c) [0..<h c]) cs)"
  have vt: "vt = pre @ ?col @ ?rest @ post" using Cons.prems(3) by simp
  have nth: "vt ! (length pre + r) = g r c" if "r < h c" for r
    using that by (simp add: vt nth_append)
  let ?F1 = "\<lambda>r' c'. if c' = c \<and> r' < h c then vt ! (length pre + r') else F r' c'"
  have "fold (\<lambda>row. put vt row c) [0..<h c] (grid_of R C F, length pre) =
        (grid_of R C ?F1, length pre + h c)"
    using Cons.prems(2) by (intro fill_col) (simp_all add: vt)
  moreover have "fold (\<lambda>col. fold (\<lambda>row. put vt row col) [0..<h col]) cs
                   (grid_of R C ?F1, length (pre @ ?col)) =
                 (grid_of R C (\<lambda>r c. if c \<in> set cs \<and> r < h c then g r c else ?F1 r c),
                  length (pre @ ?col) + length ?rest)"
    using Cons.prems by (intro Cons.IH) (simp_all add: vt)
  moreover have "grid_of R C (\<lambda>r c. if c \<in> set cs \<and> r < h c then g r c else ?F1 r c) =
                 grid_of R C (\<lambda>r c'. if c' \<in> set (c # cs) \<and> r < h c' then g r c' else F r c')"
    using nth by (intro grid_of_cong) auto
  ultimately show ?case by simp
qed

subsection \<open>The read-out loops\<close>

lemma emit_inner_rows:
  "fold (\<lambda>row. emit tbl row col) rs acc =
   acc @ filter (\<lambda>x. x \<noteq> space) (map (\<lambda>row. tbl ! row ! col) rs)"
  by (induction rs arbitrary: acc) (simp_all add: emit_def)

lemma emit_inner_cols:
  "fold (\<lambda>col. emit tbl row col) cs acc =
   acc @ filter (\<lambda>x. x \<noteq> space) (map (\<lambda>col. tbl ! row ! col) cs)"
  by (induction cs arbitrary: acc) (simp_all add: emit_def)

lemma emit_column_major:
  "fold (\<lambda>col. fold (\<lambda>row. emit tbl row col) rs) cs acc =
   acc @ concat (map (\<lambda>col. filter (\<lambda>x. x \<noteq> space) (map (\<lambda>row. tbl ! row ! col) rs)) cs)"
  by (induction cs arbitrary: acc) (simp_all add: emit_inner_rows)

lemma emit_row_major:
  "fold (\<lambda>row. fold (\<lambda>col. emit tbl row col) cs) rs acc =
   acc @ concat (map (\<lambda>row. filter (\<lambda>x. x \<noteq> space) (map (\<lambda>col. tbl ! row ! col) cs)) rs)"
  by (induction rs arbitrary: acc) (simp_all add: emit_inner_cols)


subsection \<open>Arithmetic of the grid\<close>

lemma rows_eq:
  assumes "0 < (C::nat)"
  shows "(n + C - 1) div C = (if n mod C = 0 then n div C else Suc (n div C))"
proof -
  define q where "q = n div C"
  define m where "m = n mod C"
  define p where "p = C * q"
  have n: "n = p + m" by (simp add: p_def q_def m_def)
  have m: "m < C" using assms by (simp add: m_def)
  have S1: "C * Suc q = p + C" by (simp add: p_def)
  have S2: "C * Suc (Suc q) = p + C + C" by (simp add: p_def)
  show ?thesis
  proof (cases "m = 0")
    case True
    have "p \<le> n + C - 1" using n assms by linarith
    then have a: "C * q \<le> n + C - 1" by (simp add: p_def)
    have "n + C - 1 < p + C" using n True assms by linarith
    then have b: "n + C - 1 < C * Suc q" using S1 by simp
    have "(n + C - 1) div C = q" by (rule div_nat_eqI[OF a b])
    with True show ?thesis by (simp add: q_def m_def)
  next
    case False
    have "p + C \<le> n + C - 1" using n False by linarith
    then have a: "C * Suc q \<le> n + C - 1" using S1 by simp
    have "n + C - 1 < p + C + C" using n m by linarith
    then have b: "n + C - 1 < C * Suc (Suc q)" using S2 by simp
    have "(n + C - 1) div C = Suc q" by (rule div_nat_eqI[OF a b])
    with False show ?thesis by (simp add: q_def m_def)
  qed
qed

lemma grid_covers:
  assumes "0 < (C::nat)"
  shows "n \<le> ((n + C - 1) div C) * C"
proof -
  define q where "q = n div C"
  define m where "m = n mod C"
  define p where "p = q * C"
  have n: "n = p + m" by (simp add: p_def q_def m_def)
  have m: "m < C" using assms by (simp add: m_def)
  show ?thesis
  proof (cases "m = 0")
    case True
    then have "(n + C - 1) div C * C = p"
      unfolding rows_eq[OF assms] by (simp add: p_def q_def m_def)
    with n True show ?thesis by simp
  next
    case False
    then have "(n + C - 1) div C * C = p + C"
      unfolding rows_eq[OF assms] by (simp add: p_def q_def m_def)
    with n m show ?thesis by simp
  qed
qed

lemma filled_iff:
  assumes C: "0 < (C::nat)" and r: "r < (n + C - 1) div C" and c: "c < C"
  shows "r * C + c < n \<longleftrightarrow>
         r < (if (if n mod C = 0 then C else n mod C) \<le> c
              then (n + C - 1) div C - 1 else (n + C - 1) div C)"
proof -
  define q where "q = n div C"
  define m where "m = n mod C"
  define p where "p = q * C"
  define x where "x = r * C"
  have n: "n = p + m" by (simp add: p_def q_def m_def)
  have m: "m < C" using C by (simp add: m_def)
  have le: "x \<le> p" if "r \<le> q" using that by (simp add: x_def p_def)
  have lt: "x + C \<le> p" if "r < q"
  proof -
    from that have "Suc r * C \<le> q * C" by (intro mult_le_mono1) simp
    then show ?thesis by (simp add: x_def p_def)
  qed
  have R: "(n + C - 1) div C = (if m = 0 then q else Suc q)"
    using rows_eq[OF C, of n] by (simp add: q_def m_def)
  have goal: "x + c < n \<longleftrightarrow> r < (if (if m = 0 then C else m) \<le> c
                                      then (n + C - 1) div C - 1 else (n + C - 1) div C)"
  proof (cases "m = 0")
    case True
    then have "r < q" using r R by simp
    from lt[OF this] c n True have "x + c < n" by linarith
    with True c r show ?thesis by simp
  next
    case False
    with r R have rq: "r \<le> q" by simp
    show ?thesis
    proof (cases "m \<le> c")
      case True
      have "x + c < n \<longleftrightarrow> r < q"
      proof
        assume a: "x + c < n"
        show "r < q"
        proof (rule ccontr)
          assume "\<not> r < q"
          with rq have "r = q" by simp
          then have "x = p" by (simp add: x_def p_def)
          with a n True show False by linarith
        qed
      next
        assume "r < q"
        from lt[OF this] c n show "x + c < n" by linarith
      qed
      with True False R show ?thesis by simp
    next
      case c': False
      from le[OF rq] c' n have "x + c < n" by linarith
      with c' False R r show ?thesis by simp
    qed
  qed
  then show ?thesis by (simp add: x_def m_def)
qed

subsection \<open>Columns and rows of the filled grid\<close>

lemma filter_cells:
  assumes "space \<notin> set vt"
  shows "filter (\<lambda>x. x \<noteq> space) (map (\<lambda>i. if f i < length vt then vt ! f i else space) xs) =
         map (\<lambda>i. vt ! f i) (filter (\<lambda>i. f i < length vt) xs)"
proof (induction xs)
  case Nil
  then show ?case by simp
next
  case (Cons i xs)
  have "vt ! f i \<noteq> space" if "f i < length vt"
    using that assms nth_mem by metis
  with Cons show ?case by simp
qed

lemma filter_less_upt: "filter (\<lambda>i. i < m) [0..<k] = [0..<min k m]"
proof (induction k)
  case 0
  then show ?case by simp
next
  case (Suc k)
  show ?case
  proof (cases "k < m")
    case True
    with Suc show ?thesis by (simp add: min_def)
  next
    case False
    then have "min (Suc k) m = m" "min k m = m" by simp_all
    with Suc False show ?thesis by simp
  qed
qed

lemma row_chunk:
  "map (\<lambda>c. vt ! (r * C + c)) (filter (\<lambda>c. r * C + c < length vt) [0..<C]) =
   take C (drop (r * C) vt)"
proof -
  have "filter (\<lambda>c. r * C + c < length vt) [0..<C] = filter (\<lambda>c. c < length vt - r * C) [0..<C]"
    by (intro filter_cong) auto
  then have "map (\<lambda>c. vt ! (r * C + c)) (filter (\<lambda>c. r * C + c < length vt) [0..<C]) =
             map (\<lambda>c. vt ! (r * C + c)) [0..<min C (length vt - r * C)]"
    by (simp add: filter_less_upt)
  also have "\<dots> = take C (drop (r * C) vt)"
  proof (rule nth_equalityI)
    show "length (map (\<lambda>c. vt ! (r * C + c)) [0..<min C (length vt - r * C)]) =
          length (take C (drop (r * C) vt))"
      by (simp add: min.commute)
  next
    fix i
    assume "i < length (map (\<lambda>c. vt ! (r * C + c)) [0..<min C (length vt - r * C)])"
    then have i: "i < C" "i < length vt - r * C" by simp_all
    then have "r * C \<le> length vt" by simp
    with i show "map (\<lambda>c. vt ! (r * C + c)) [0..<min C (length vt - r * C)] ! i =
                 take C (drop (r * C) vt) ! i"
      by simp
  qed
  finally show ?thesis .
qed

lemma concat_chunks:
  "concat (map (\<lambda>r. take C (drop (r * C) vt)) [0..<k]) = take (k * C) vt"
proof (induction k)
  case 0
  then show ?case by simp
next
  case (Suc k)
  have "take (Suc k * C) vt = take (k * C + C) vt" by (simp add: add.commute)
  also have "\<dots> = take (k * C) vt @ take C (drop (k * C) vt)" by (rule take_add)
  finally show ?case using Suc by simp
qed

lemma row_major_text:
  assumes "length vt \<le> R * C"
  shows "concat (map (\<lambda>r. map (\<lambda>c. vt ! (r * C + c))
                         (filter (\<lambda>c. r * C + c < length vt) [0..<C])) [0..<R]) = vt"
  using assms by (simp add: row_chunk concat_chunks)

text \<open>Reading a rectangle of cells by columns or by rows gives the same multiset.\<close>

lemma mset_concat_append:
  "mset (concat (map (\<lambda>r. A r @ B r) rs)) =
   mset (concat (map A rs)) + mset (concat (map B rs))"
  by (induction rs) simp_all

lemma mset_column:
  "mset (concat (map (\<lambda>r. map (f r) (filter (Q r) [c])) rs)) =
   mset (map (\<lambda>r. f r c) (filter (\<lambda>r. Q r c) rs))"
  by (induction rs) simp_all

lemma mset_transposed:
  "mset (concat (map (\<lambda>c. map (\<lambda>r. f r c) (filter (\<lambda>r. Q r c) rs)) cs)) =
   mset (concat (map (\<lambda>r. map (f r) (filter (Q r) cs)) rs))"
proof (induction cs)
  case Nil
  show ?case by (induction rs) simp_all
next
  case (Cons c cs)
  have "mset (concat (map (\<lambda>r. map (f r) (filter (Q r) (c # cs))) rs)) =
        mset (concat (map (\<lambda>r. map (f r) (filter (Q r) [c]) @ map (f r) (filter (Q r) cs)) rs))"
    by (intro arg_cong[where f = mset] arg_cong[where f = concat] map_cong) simp_all
  also have "\<dots> = mset (map (\<lambda>r. f r c) (filter (\<lambda>r. Q r c) rs)) +
                    mset (concat (map (\<lambda>r. map (f r) (filter (Q r) cs)) rs))"
    by (simp only: mset_concat_append mset_column)
  finally show ?case using Cons by simp
qed

lemma mset_concat_rev: "mset (concat (map F (rev cs))) = mset (concat (map F cs))"
  by (induction cs) simp_all

lemma mset_route:
  assumes "0 < C"
  shows "mset (route C t) = mset t"
proof -
  let ?R = "(length t + C - 1) div C"
  have "mset (route C t) =
        mset (concat (map (\<lambda>c. map (\<lambda>r. t ! (r * C + c))
                               (filter (\<lambda>r. r * C + c < length t) [0..<?R])) [0..<C]))"
    by (simp add: route_def Let_def mset_concat_rev)
  also have "\<dots> = mset (concat (map (\<lambda>r. map (\<lambda>c. t ! (r * C + c))
                               (filter (\<lambda>c. r * C + c < length t) [0..<C])) [0..<?R]))"
    by (rule mset_transposed)
  also have "\<dots> = mset t"
    using grid_covers[OF assms, of "length t"] by (simp only: row_major_text)
  finally show ?thesis .
qed

lemma length_route: "0 < C \<Longrightarrow> length (route C t) = length t"
  using mset_route[of C t] by (metis size_mset)

lemma set_route: "0 < C \<Longrightarrow> set (route C t) = set t"
  using mset_route[of C t] by (metis set_mset_mset)


subsection \<open>The two transformations on a validated text\<close>

lemma encrypt_core:
  assumes "space \<notin> set vt"
  shows "fold (\<lambda>col. fold (\<lambda>row. emit (fst (fold (\<lambda>row. fold (\<lambda>col. put vt row col) [0..<C])
                                                [0..<R] (replicate R (replicate C space), 0)))
                                  row col) [0..<R]) (rev [0..<C]) [] =
         concat (map (\<lambda>col. map (\<lambda>row. vt ! (row * C + col))
                                (filter (\<lambda>row. row * C + col < length vt) [0..<R]))
                     (rev [0..<C]))"
proof -
  have tbl: "fst (fold (\<lambda>row. fold (\<lambda>col. put vt row col) [0..<C]) [0..<R]
                    (replicate R (replicate C space), 0)) =
             grid_of R C (\<lambda>r c. if r < R then cell vt C r c else space)"
    by (simp add: fill_rows)
  have col: "filter (\<lambda>x. x \<noteq> space)
               (map (\<lambda>row. grid_of R C (\<lambda>r c. if r < R then cell vt C r c else space) ! row ! col)
                  [0..<R]) =
             map (\<lambda>row. vt ! (row * C + col)) (filter (\<lambda>row. row * C + col < length vt) [0..<R])"
    if "col < C" for col
  proof -
    have "map (\<lambda>row. grid_of R C (\<lambda>r c. if r < R then cell vt C r c else space) ! row ! col)
            [0..<R] =
          map (\<lambda>row. if row * C + col < length vt then vt ! (row * C + col) else space) [0..<R]"
      using that by (intro map_cong) (simp_all add: nth_nth_grid_of cell_def)
    then show ?thesis by (simp only: filter_cells[OF assms])
  qed
  show ?thesis
    unfolding tbl emit_column_major
    by (simp only: append_Nil) (intro arg_cong[where f = concat] map_cong refl col, simp)
qed

lemma decrypt_core:
  assumes C: "0 < C" and sp: "space \<notin> set vt"
      and R: "R = (length vt + C - 1) div C"
      and ct: "ct = concat (map (\<lambda>col. map (\<lambda>row. vt ! (row * C + col))
                                (filter (\<lambda>row. row * C + col < length vt) [0..<R]))
                     (rev [0..<C]))"
      and h: "h = (\<lambda>col. if (if length vt mod C = 0 then C else length vt mod C) \<le> col
                         then R - 1 else R)"
  shows "fold (\<lambda>row. fold (\<lambda>col. emit (fst (fold (\<lambda>col. fold (\<lambda>row. put ct row col) [0..<h col])
                                                (rev [0..<C]) (replicate R (replicate C space), 0)))
                                  row col) [0..<C]) [0..<R] [] = vt"
proof -
  have iff: "r * C + c < length vt \<longleftrightarrow> r < h c" if "r < R" "c < C" for r c
    using filled_iff[OF C, of r "length vt" c] that by (simp add: R h)
  have hR: "h c \<le> R" for c by (simp add: h)
  have column: "filter (\<lambda>row. row * C + col < length vt) [0..<R] = [0..<h col]" if "col < C" for col
  proof -
    have "filter (\<lambda>row. row * C + col < length vt) [0..<R] = filter (\<lambda>row. row < h col) [0..<R]"
      using iff that by (intro filter_cong) simp_all
    with hR[of col] show ?thesis by (simp add: filter_less_upt min_def)
  qed
  have ct': "ct = [] @ concat (map (\<lambda>c. map (\<lambda>r. vt ! (r * C + c)) [0..<h c]) (rev [0..<C])) @ []"
    unfolding ct by (simp only: append_Nil append_Nil2)
       (intro arg_cong[where f = concat] map_cong refl, simp add: column)
  have "fold (\<lambda>col. fold (\<lambda>row. put ct row col) [0..<h col]) (rev [0..<C])
          (grid_of R C (\<lambda>r c. space), length ([]::wstring)) =
        (grid_of R C (\<lambda>r c. if c \<in> set (rev [0..<C]) \<and> r < h c then vt ! (r * C + c) else space),
         length ([]::wstring) +
         length (concat (map (\<lambda>c. map (\<lambda>r. vt ! (r * C + c)) [0..<h c]) (rev [0..<C]))))"
    using hR by (intro fill_cols[OF _ _ ct']) simp_all
  then have tbl: "fst (fold (\<lambda>col. fold (\<lambda>row. put ct row col) [0..<h col]) (rev [0..<C])
                         (replicate R (replicate C space), 0)) =
                  grid_of R C (\<lambda>r c. if c \<in> set (rev [0..<C]) \<and> r < h c
                                      then vt ! (r * C + c) else space)"
    by (simp add: replicate_grid)
  also have "\<dots> = grid_of R C (cell vt C)"
    using iff by (intro grid_of_cong) (simp add: cell_def)
  finally have tbl: "fst (fold (\<lambda>col. fold (\<lambda>row. put ct row col) [0..<h col]) (rev [0..<C])
                         (replicate R (replicate C space), 0)) = grid_of R C (cell vt C)" .
  have row: "filter (\<lambda>x. x \<noteq> space) (map (\<lambda>col. grid_of R C (cell vt C) ! row ! col) [0..<C]) =
             map (\<lambda>col. vt ! (row * C + col)) (filter (\<lambda>col. row * C + col < length vt) [0..<C])"
    if "row < R" for row
  proof -
    have "map (\<lambda>col. grid_of R C (cell vt C) ! row ! col) [0..<C] =
          map (\<lambda>col. if row * C + col < length vt then vt ! (row * C + col) else space) [0..<C]"
      using that by (intro map_cong) (simp_all add: nth_nth_grid_of cell_def)
    then show ?thesis by (simp only: filter_cells[OF sp])
  qed
  have "fold (\<lambda>row. fold (\<lambda>col. emit (grid_of R C (cell vt C)) row col) [0..<C]) [0..<R] [] =
        concat (map (\<lambda>r. map (\<lambda>c. vt ! (r * C + c))
                         (filter (\<lambda>c. r * C + c < length vt) [0..<C])) [0..<R])"
    unfolding emit_row_major
    by (simp only: append_Nil) (intro arg_cong[where f = concat] map_cong refl row, simp)
  also have "\<dots> = vt"
    using grid_covers[OF C, of "length vt"] by (simp only: row_major_text R)
  finally show ?thesis unfolding tbl .
qed


subsection \<open>\<open>Table::encrypt\<close> and \<open>Table::decrypt\<close> on accepted input\<close>

lemma Table_encrypt_route:
  assumes "Table k = Inr T" and "normalized plain \<noteq> []"
  shows "Table_encrypt T plain = Inr (route (nat k) (normalized plain))"
proof -
  have k: "cols T = k" using Table_cols[OF assms(1)] by simp
  have sp: "space \<notin> set (normalized plain)"
    using normalized_upper space_not_upper by blast
  show ?thesis
    using assms(2)
    by (simp add: Table_encrypt_def Table_getValidOpenText_def Table_open_text_normalized
                  Let_def k encrypt_core[OF sp] route_def)
qed

lemma Table_decrypt_route:
  assumes "Table k = Inr T" and "vt \<noteq> []" and "set vt \<subseteq> set upper"
  shows "Table_decrypt T (route (nat k) vt) = Inr vt"
proof -
  have k: "cols T = k" "0 < nat k" using Table_cols[OF assms(1)] by simp_all
  have sp: "space \<notin> set vt" using assms(3) space_not_upper by blast
  have len: "length (route (nat k) vt) = length vt" by (rule length_route[OF k(2)])
  have "route (nat k) vt \<noteq> []" using len assms(2) by auto
  moreover have "set (route (nat k) vt) \<subseteq> set upper"
    using set_route[OF k(2), of vt] assms(3) by simp
  ultimately have v: "Table_getValidCipherText (route (nat k) vt) = Inr (route (nat k) vt)"
    by (rule Table_cipher_text_valid)
  have core: "fold (\<lambda>row. fold (\<lambda>col. emit (fst (fold (\<lambda>col. fold (\<lambda>row. put (route (nat k) vt) row col)
               [0..<(if (if length vt mod nat k = 0 then nat k else length vt mod nat k) \<le> col
                     then (length vt + nat k - 1) div nat k - 1
                     else (length vt + nat k - 1) div nat k)])
               (rev [0..<nat k])
               (replicate ((length vt + nat k - 1) div nat k) (replicate (nat k) space), 0)))
             row col) [0..<nat k]) [0..<(length vt + nat k - 1) div nat k] [] = vt"
    by (rule decrypt_core[OF k(2) sp refl _ refl]) (simp add: route_def Let_def)
  have ne: "length vt \<noteq> 0" using assms(2) by simp
  show ?thesis
    unfolding Table_decrypt_def Let_def v sum.case len k(1)
    by (simp only: ne if_False core)
qed

lemma route_single_row:
  assumes "length t \<le> C" "t \<noteq> []"
  shows "route C t = rev t"
proof -
  have C: "0 < C" using assms by (cases t) auto
  have R: "(length t + C - 1) div C = 1"
    using assms rows_eq[OF C, of "length t"] by (auto simp: mod_less div_less le_eq_less_or_eq)
  have pre: "concat (map (\<lambda>c. if c < length t then [t ! c] else []) (rev [0..<k])) = rev (take k t)"
    for k
  proof (induction k)
    case 0
    then show ?case by simp
  next
    case (Suc k)
    then show ?case by (simp add: take_Suc_conv_app_nth)
  qed
  have "route C t = concat (map (\<lambda>col. map (\<lambda>row. t ! (row * C + col))
                                       (filter (\<lambda>row. row * C + col < length t) [0..<1]))
                            (rev [0..<C]))"
    unfolding route_def Let_def R ..
  also have "\<dots> = concat (map (\<lambda>c. if c < length t then [t ! c] else []) (rev [0..<C]))"
    by (intro arg_cong[where f = concat] map_cong refl) simp
  finally show ?thesis using pre[of C] assms(1) by simp
qed

lemma route_one_column: "route (Suc 0) t = t"
  by (simp add: route_def Let_def map_nth)

lemma Table_accepts: "1 \<le> k \<Longrightarrow> k \<le> 100 \<Longrightarrow> Table k = Inr \<lparr> cols = k \<rparr>"
  by (simp add: Table_def Table_getValidKey_def)

lemma Table_encrypt_Inr:
  assumes "Table k = Inr T" and "Table_encrypt T plain = Inr ct"
  shows "normalized plain \<noteq> [] \<and> ct = route (nat k) (normalized plain)"
proof -
  have ne: "normalized plain \<noteq> []"
  proof
    assume "normalized plain = []"
    then have "Table_encrypt T plain = Inl (Cipher_error ''Empty text: no valid Russian letters'')"
      by (simp add: Table_encrypt_def Table_getValidOpenText_def Table_open_text_normalized)
    with assms(2) show False by simp
  qed
  with Table_encrypt_route[OF assms(1) ne] assms(2) show ?thesis by simp
qed

lemma Table_cipher_text_Inr:
  "Table_getValidCipherText s = Inr v \<Longrightarrow> s \<noteq> [] \<and> set s \<subseteq> set upper"
  by (auto simp: Table_getValidCipherText_def list_ex_iff wfind_None split: if_splits)

lemma Table_decrypt_Inr:
  assumes "Table_decrypt T cipher = Inr pt"
  shows "cipher \<noteq> [] \<and> set cipher \<subseteq> set upper"
proof (cases "Table_getValidCipherText cipher")
  case (Inl e)
  then have "Table_decrypt T cipher = Inl e" by (simp add: Table_decrypt_def)
  with assms show ?thesis by simp
next
  case (Inr v)
  then show ?thesis by (rule Table_cipher_text_Inr)
qed

lemma route_onto:
  assumes "Table k = Inr T" and "s \<noteq> []" and "set s \<subseteq> set upper"
  shows "\<exists>t. set t \<subseteq> set upper \<and> length t = length s \<and> route (nat k) t = s"
proof -
  let ?V = "{t. set t \<subseteq> set upper \<and> length t = length s}"
  have C: "0 < nat k" using Table_cols[OF assms(1)] by simp
  have fin: "finite ?V" by (rule finite_lists_length_eq) simp
  have sub: "route (nat k) ` ?V \<subseteq> ?V"
  proof
    fix x
    assume "x \<in> route (nat k) ` ?V"
    then obtain t where t: "t \<in> ?V" "x = route (nat k) t" by (rule imageE)
    then show "x \<in> ?V" by (simp add: length_route[OF C] set_route[OF C])
  qed
  have inj: "inj_on (route (nat k)) ?V"
  proof (rule inj_onI)
    fix a b
    assume a: "a \<in> ?V" and b: "b \<in> ?V" and eq: "route (nat k) a = route (nat k) b"
    from a b assms(2) have ne: "a \<noteq> []" "b \<noteq> []" by auto
    from a b have up: "set a \<subseteq> set upper" "set b \<subseteq> set upper" by simp_all
    have "(Inr a :: failure + wstring) = Table_decrypt T (route (nat k) a)"
      by (rule Table_decrypt_route[OF assms(1) ne(1) up(1), symmetric])
    also have "\<dots> = Table_decrypt T (route (nat k) b)"
      by (simp only: eq)
    also have "\<dots> = Inr b"
      by (rule Table_decrypt_route[OF assms(1) ne(2) up(2)])
    finally show "a = b" by simp
  qed
  have img: "route (nat k) ` ?V = ?V" by (rule endo_inj_surj[OF fin sub inj])
  have sV: "s \<in> ?V" using assms(3) by simp
  have "s \<in> route (nat k) ` ?V" unfolding img by (rule sV)
  then obtain t where t: "t \<in> ?V" "s = route (nat k) t" by (rule imageE)
  show ?thesis
  proof (intro exI conjI)
    show "set t \<subseteq> set upper" using t(1) by simp
    show "length t = length s" using t(1) by simp
    show "route (nat k) t = s" using t(2) by simp
  qed
qed

subsection \<open>When \<open>encrypt\<close> reports an empty text\<close>

lemma shift_encrypt_empty_text_iff:
  "modAlphaCipher_encrypt L eng t = Inl (Cipher_error ''Empty text, no letters'') \<longleftrightarrow>
   \<not> list_ex (iswalpha L) t"
proof (cases "getValidOpenText_loop L t = []")
  case True
  then show ?thesis
    using open_text_loop_empty[of L t]
    by (simp add: modAlphaCipher_encrypt_def getValidOpenText_def)
next
  case False
  then have "modAlphaCipher_encrypt L eng t \<noteq> Inl (Cipher_error ''Empty text, no letters'')"
    by (simp add: modAlphaCipher_encrypt_def getValidOpenText_def encrypt_loop_def)
  with False show ?thesis
    using open_text_loop_empty[of L t] by simp
qed

lemma Table_encrypt_empty_text_iff:
  "Table_encrypt T t = Inl (Cipher_error ''Empty text: no valid Russian letters'') \<longleftrightarrow>
   normalized t = []"
proof (cases "normalized t = []")
  case True
  then show ?thesis
    by (simp add: Table_encrypt_def Table_getValidOpenText_def Table_open_text_normalized)
next
  case False
  then have "\<exists>ct. Table_encrypt T t = Inr ct"
    by (simp add: Table_encrypt_def Table_getValidOpenText_def Table_open_text_normalized Let_def)
  with False show ?thesis by auto
qed

lemma eval_constructor_V:
  "modAlphaCipher unicode_ctype [1042] = Inr \<lparr> alphaNum = init_alphaNum, key = [2] \<rparr>"
  by (simp add: modAlphaCipher_def getValidKey_def unicode_ctype_def toUpper_def
                init_alphaNum_closed set_numAlpha indexOf_def)

section \<open>Claims about the shift engine\<close>

text \<open>
  Claim C3, as amended. For every key string accepted by the constructor, every element of
  the derived numeric key lies in \<open>[0, 33)\<close>: the alphabet \<open>numAlpha\<close> has 33 symbols, so
  the last letter has index 32. When the C library classifies the letters of the alphabet as
  letters and leaves its uppercase letters alone (\<open>knows_alphabet\<close>), the key is non-empty as
  soon as the key string holds one letter of the alphabet; when moreover the key string holds
  no letter from outside the alphabet that the library upper-cases into it, the key is the
  list of alphabet indices of the key string's alphabet letters.
\<close>

theorem shift_key_indices:
  assumes "modAlphaCipher L skey = Inr eng"
  shows "(\<forall>i\<in>set (key eng). 0 \<le> i \<and> i < 33) \<and>
         (knows_alphabet L \<and> list_ex ru_letter skey \<longrightarrow> key eng \<noteq> []) \<and>
         (knows_alphabet L \<and> \<not> list_ex (foreign_folded L) skey \<longrightarrow>
            key eng = map (\<lambda>c. int (indexOf c)) (normalized skey))"
proof -
  have k: "key eng = convert_s L init_alphaNum (getValidOpenText_loop L skey)"
    using constructor_key[OF assms] by simp
  have 1: "\<forall>i\<in>set (key eng). 0 \<le> i \<and> i < 33"
    using convert_s_range k by metis
  have 2: "key eng \<noteq> []" if "knows_alphabet L" "list_ex ru_letter skey"
    using k convert_s_keeps_letter[OF that] by simp
  have 3: "key eng = map (\<lambda>c. int (indexOf c)) (normalized skey)"
    if "knows_alphabet L" "\<not> list_ex (foreign_folded L) skey"
    using k convert_s_open_text[OF that] by simp
  from 1 2 3 show ?thesis by blast
qed

theorem shift_key_indices_witness:
  "modAlphaCipher unicode_ctype [1052, 1048, 1056] =
     Inr \<lparr> alphaNum = init_alphaNum, key = [13, 9, 17] \<rparr> \<and>
   knows_alphabet unicode_ctype \<and> list_ex ru_letter [1052, 1048, 1056] \<and>
   \<not> list_ex (foreign_folded unicode_ctype) [1052, 1048, 1056] \<and>
   list_all (\<lambda>i. 0 \<le> i \<and> i < 33) [13, 9, 17 :: int] \<and>
   [13, 9, 17] = map (\<lambda>c. int (indexOf c)) (normalized [1052, 1048, 1056])"
  using shift_key_indices[OF eval_constructor] knows_alphabet_unicode eval_constructor
  by (simp add: normalized_MIR indexOf_def ru_letter_def foreign_folded_def
                upper_numAlpha set_numAlpha)

text \<open>
  Claim C3 as stated fails twice: the key \<open>U+042F\<close> (the last letter) gives the index 32,
  outside \<open>[0, 32)\<close>; the key \<open>ABC\<close> is accepted and gives the empty numeric key.
\<close>

theorem shift_key_counterexample:
  "map_sum id key (modAlphaCipher unicode_ctype [1071]) = Inr [32] \<and>
   map_sum id key (modAlphaCipher unicode_ctype [65, 66, 67]) = Inr []"
  by (simp add: modAlphaCipher_def getValidKey_def unicode_ctype_def toUpper_def
                init_alphaNum_closed set_numAlpha indexOf_def)

text \<open>
  Claim C6, as amended (modulus 33 instead of 32), for a key accepted by the constructor
  whose numeric key is non-empty. The engine's map sends the symbol at position \<open>j\<close> of the
  alphabet to \<open>j\<close>. In every locale, \<open>encrypt\<close> sends the index \<open>p\<close> at position \<open>i\<close> of the
  converted validated text to the symbol of index \<open>(p + key[i mod keyLength]) mod 33\<close>, and
  the output is as long as the converted text. When the C library classifies the letters of
  the alphabet as letters and leaves its uppercase letters alone, and the text holds no
  letter from outside the alphabet that the library upper-cases into it, the converted text
  is the normalized text: \<open>encrypt\<close> sends the normalized symbol at position \<open>i\<close>, of index
  \<open>p\<close>, to the symbol of index \<open>(p + key[i mod keyLength]) mod 33\<close>, and the output is as long
  as the normalized text. Under the same condition on the library, \<open>decrypt\<close> sends the
  symbol of index \<open>c\<close> at position \<open>i\<close> of a non-empty ciphertext over the alphabet to the
  symbol of index \<open>(c + 33 - key[i mod keyLength]) mod 33\<close>.
\<close>

theorem shift_transform:
  assumes "modAlphaCipher L skey = Inr eng" and "key eng \<noteq> []"
  shows "(\<forall>j<33. alphaNum eng (numAlpha ! j) = Some (int j)) \<and>
         (getValidOpenText L t = Inr v \<longrightarrow>
            modAlphaCipher_encrypt L eng t =
              Inr (map (\<lambda>i. numAlpha ! nat ((convert_s L (alphaNum eng) v ! i +
                                              key eng ! (i mod length (key eng))) mod 33))
                     [0..<length (convert_s L (alphaNum eng) v)])) \<and>
         (knows_alphabet L \<and> \<not> list_ex (foreign_folded L) t \<and> normalized t \<noteq> [] \<longrightarrow>
            modAlphaCipher_encrypt L eng t =
              Inr (map (\<lambda>i. numAlpha ! nat ((int (indexOf (normalized t ! i)) +
                                              key eng ! (i mod length (key eng))) mod 33))
                     [0..<length (normalized t)])) \<and>
         (knows_alphabet L \<and> s \<noteq> [] \<and> set s \<subseteq> set numAlpha \<longrightarrow>
            modAlphaCipher_decrypt L eng s =
              Inr (map (\<lambda>i. numAlpha ! nat ((int (indexOf (s ! i)) + 33 -
                                              key eng ! (i mod length (key eng))) mod 33))
                     [0..<length s]))"
proof (intro conjI impI allI)
  fix j :: nat
  assume "j < 33"
  then show "alphaNum eng (numAlpha ! j) = Some (int j)"
    using constructor_key[OF assms(1)] init_alphaNum_nth by simp
next
  assume "getValidOpenText L t = Inr v"
  then show "modAlphaCipher_encrypt L eng t =
             Inr (map (\<lambda>i. numAlpha ! nat ((convert_s L (alphaNum eng) v ! i +
                                             key eng ! (i mod length (key eng))) mod 33))
                    [0..<length (convert_s L (alphaNum eng) v)])"
    by (rule shift_encrypt_general[OF assms(2)])
next
  assume "knows_alphabet L \<and> \<not> list_ex (foreign_folded L) t \<and> normalized t \<noteq> []"
  then show "modAlphaCipher_encrypt L eng t =
             Inr (map (\<lambda>i. numAlpha ! nat ((int (indexOf (normalized t ! i)) +
                                             key eng ! (i mod length (key eng))) mod 33))
                    [0..<length (normalized t)])"
    using shift_encrypt_closed[OF _ _ assms] by blast
next
  assume "knows_alphabet L \<and> s \<noteq> [] \<and> set s \<subseteq> set numAlpha"
  then show "modAlphaCipher_decrypt L eng s =
             Inr (map (\<lambda>i. numAlpha ! nat ((int (indexOf (s ! i)) + 33 -
                                             key eng ! (i mod length (key eng))) mod 33))
                    [0..<length s])"
    using shift_decrypt_closed[OF _ assms] by blast
qed

theorem shift_transform_witness:
  "modAlphaCipher unicode_ctype [1052, 1048, 1056] =
     Inr \<lparr> alphaNum = init_alphaNum, key = [13, 9, 17] \<rparr> \<and>
   knows_alphabet unicode_ctype \<and>
   \<not> list_ex (foreign_folded unicode_ctype) [1040, 1040, 1040, 1040, 1040] \<and>
   getValidOpenText unicode_ctype [1040, 1040, 1040, 1040, 1040] =
     Inr [1040, 1040, 1040, 1040, 1040] \<and>
   modAlphaCipher_encrypt unicode_ctype \<lparr> alphaNum = init_alphaNum, key = [13, 9, 17] \<rparr>
     [1040, 1040, 1040, 1040, 1040] = Inr [1052, 1048, 1056, 1052, 1048] \<and>
   modAlphaCipher_decrypt unicode_ctype \<lparr> alphaNum = init_alphaNum, key = [13, 9, 17] \<rparr>
     [1052, 1048, 1056, 1052, 1048] = Inr [1040, 1040, 1040, 1040, 1040]"
proof -
  have n: "normalized [1040, 1040, 1040, 1040, 1040] = [1040, 1040, 1040, 1040, 1040]"
    by (simp add: normalized_def ru_letter_def upper_numAlpha set_numAlpha ru_toupper_def)
  have k: "key \<lparr> alphaNum = init_alphaNum, key = [13, 9, 17] \<rparr> \<noteq> []"
    by simp
  have f: "\<not> list_ex (foreign_folded unicode_ctype) [1040, 1040, 1040, 1040, 1040]"
    by (simp add: foreign_folded_def ru_letter_def upper_numAlpha set_numAlpha)
  have v: "getValidOpenText unicode_ctype [1040, 1040, 1040, 1040, 1040] =
           Inr [1040, 1040, 1040, 1040, 1040]"
    by (simp add: getValidOpenText_def unicode_ctype_def)
  show ?thesis
    using shift_transform[OF eval_constructor k,
            of "[1040, 1040, 1040, 1040, 1040]" _ "[1052, 1048, 1056, 1052, 1048]",
            THEN conjunct2, THEN conjunct2]
          knows_alphabet_unicode eval_constructor f v
    by (simp add: n set_numAlpha indexOf_def numAlpha_def)
qed

text \<open>
  Claim C6 as stated (modulus 32) fails: under the key \<open>U+042F\<close>, of index 32, the letter
  \<open>U+041F\<close>, of index 16, is encrypted to \<open>U+041E\<close>, of index \<open>(16 + 32) mod 33 = 15\<close>, and not
  to the symbol of index \<open>(16 + 32) mod 32 = 16\<close>.
\<close>

theorem shift_transform_counterexample:
  "modAlphaCipher_encrypt unicode_ctype (projr (modAlphaCipher unicode_ctype [1071])) [1055]
     = Inr [1054] \<and>
   numAlpha ! nat ((int (indexOf 1055) +
                    key (projr (modAlphaCipher unicode_ctype [1071])) ! (0 mod 1)) mod 32) = 1055"
  by (simp add: modAlphaCipher_encrypt_def getValidOpenText_def encrypt_loop_def
                modAlphaCipher_def getValidKey_def unicode_ctype_def toUpper_def
                init_alphaNum_closed set_numAlpha indexOf_def numAlpha_def)

text \<open>
  Claim C1 at the key \<open>ABC\<close>: the constructor accepts it (Latin letters are letters), the
  numeric key is empty, and \<open>encrypt\<close> of a one-letter text computes \<open>0 % 0\<close> instead of
  returning a ciphertext that decrypts to the normalized text. For the accepted keys with a
  non-empty numeric key the round trip holds when the library knows the alphabet and the
  text holds no foreign letter that it upper-cases into the alphabet (lemma
  \<open>shift_round_trip\<close> above).
\<close>

theorem shift_empty_key_failure:
  "map_sum id key (modAlphaCipher unicode_ctype [65, 66, 67]) = Inr [] \<and>
   modAlphaCipher_encrypt unicode_ctype (projr (modAlphaCipher unicode_ctype [65, 66, 67])) [1040]
     = Inl Modulo_by_zero"
  by (simp add: modAlphaCipher_encrypt_def getValidOpenText_def encrypt_loop_def
                modAlphaCipher_def getValidKey_def unicode_ctype_def toUpper_def
                init_alphaNum_closed set_numAlpha indexOf_def)

text \<open>
  Claim C10. A non-empty input to \<open>decrypt\<close> made of characters that the locale classifies
  as uppercase and that \<open>toUpper\<close> does not map into the alphabet (Latin capitals, say) raises
  nothing: validation accepts it, \<open>convert\<close> drops every character, the result is the empty
  string.
\<close>

theorem shift_decrypt_foreign_upper:
  assumes "modAlphaCipher L skey = Inr eng" and "s \<noteq> []"
      and "list_all (\<lambda>c. iswupper L c \<and> toUpper L c \<notin> set numAlpha) s"
  shows "modAlphaCipher_decrypt L eng s = Inr []"
proof -
  have an: "alphaNum eng = init_alphaNum" using constructor_key[OF assms(1)] by simp
  have v: "getValidCipherText L s = Inr s"
    using assms(2,3) by (simp add: getValidCipherText_def list_ex_iff list_all_iff)
  have "\<forall>c\<in>set s. toUpper L c \<notin> set numAlpha \<Longrightarrow> convert_s L init_alphaNum s = []"
    by (induction s) (simp_all add: init_alphaNum_closed)
  with assms(3) have "convert_s L init_alphaNum s = []" by (simp add: list_all_iff)
  with v an show ?thesis
    by (simp add: modAlphaCipher_decrypt_def decrypt_loop_def)
qed

theorem shift_decrypt_foreign_upper_witness:
  "modAlphaCipher unicode_ctype [1052, 1048, 1056] =
     Inr \<lparr> alphaNum = init_alphaNum, key = [13, 9, 17] \<rparr> \<and>
   [65, 66, 67] \<noteq> ([] :: wstring) \<and>
   list_all (\<lambda>c. iswupper unicode_ctype c \<and> toUpper unicode_ctype c \<notin> set numAlpha)
     [65, 66, 67] \<and>
   modAlphaCipher_decrypt unicode_ctype \<lparr> alphaNum = init_alphaNum, key = [13, 9, 17] \<rparr>
     [65, 66, 67] = Inr []"
proof -
  have h: "list_all (\<lambda>c. iswupper unicode_ctype c \<and> toUpper unicode_ctype c \<notin> set numAlpha)
             [65, 66, 67]"
    by (simp add: unicode_ctype_def toUpper_def set_numAlpha)
  show ?thesis
    using shift_decrypt_foreign_upper[OF eval_constructor _ h] h eval_constructor
    by simp
qed

section \<open>Claims about the transposition engine\<close>

text \<open>
  Claim C2. For every column count \<open>k\<close> in \<open>[1, 100]\<close> the constructor succeeds, and for
  every text whose normalization is non-empty \<open>encrypt\<close> returns a ciphertext that \<open>decrypt\<close>
  maps back to the normalized text. Nothing is assumed on the text length, so ragged grids
  are covered.
\<close>

theorem transposition_round_trip:
  assumes "1 \<le> k" and "k \<le> 100" and "normalized t \<noteq> []"
  shows "Table k = Inr \<lparr> cols = k \<rparr> \<and>
         (\<exists>ct. Table_encrypt \<lparr> cols = k \<rparr> t = Inr ct \<and>
               Table_decrypt \<lparr> cols = k \<rparr> ct = Inr (normalized t))"
proof -
  have T: "Table k = Inr \<lparr> cols = k \<rparr>" using assms(1,2) by (rule Table_accepts)
  have "Table_encrypt \<lparr> cols = k \<rparr> t = Inr (route (nat k) (normalized t))"
    by (rule Table_encrypt_route[OF T assms(3)])
  moreover have "Table_decrypt \<lparr> cols = k \<rparr> (route (nat k) (normalized t)) = Inr (normalized t)"
    by (rule Table_decrypt_route[OF T assms(3) normalized_upper])
  ultimately show ?thesis using T by blast
qed

text \<open>A ragged instance: five letters in four columns.\<close>

theorem transposition_round_trip_witness:
  "(1::int) \<le> 4 \<and> (4::int) \<le> 100 \<and> normalized [1040, 1041, 1042, 1043, 1044] \<noteq> [] \<and>
   Table_encrypt \<lparr> cols = 4 \<rparr> [1040, 1041, 1042, 1043, 1044] = Inr [1043, 1042, 1041, 1040, 1044] \<and>
   Table_decrypt \<lparr> cols = 4 \<rparr> [1043, 1042, 1041, 1040, 1044] = Inr [1040, 1041, 1042, 1043, 1044]"
proof -
  have n: "normalized [1040, 1041, 1042, 1043, 1044] = [1040, 1041, 1042, 1043, 1044]"
    by (rule normalized_id) (simp add: upper_numAlpha set_numAlpha)
  have e: "Table_encrypt \<lparr> cols = 4 \<rparr> [1040, 1041, 1042, 1043, 1044] =
           Inr [1043, 1042, 1041, 1040, 1044]"
    using Table_encrypt_route[OF Table_accepts, of 4 "[1040, 1041, 1042, 1043, 1044]"]
    by (simp add: n route_def upt_conv_Cons)
  from transposition_round_trip[of 4 "[1040, 1041, 1042, 1043, 1044]"] n e
  show ?thesis by simp
qed

text \<open>
  Claim C7. On a text with non-empty normalization \<open>encrypt\<close> returns the \<open>route\<close> of the
  normalized text: row-major fill of a grid with \<open>ceil (n / cols)\<close> rows, read-out by columns
  from the last to the first, top to bottom, filled cells only. When \<open>cols\<close> is at least the
  normalized length the ciphertext is the reversed normalized text.
\<close>

theorem transposition_route:
  assumes "Table k = Inr T" and "normalized t \<noteq> []"
  shows "Table_encrypt T t = Inr (route (nat k) (normalized t)) \<and>
         (length (normalized t) \<le> nat k \<longrightarrow> Table_encrypt T t = Inr (rev (normalized t)))"
  using Table_encrypt_route[OF assms] route_single_row[OF _ assms(2)] by simp

text \<open>The example of the claim: ten columns, six letters.\<close>

theorem transposition_route_witness:
  "Table 10 = Inr \<lparr> cols = 10 \<rparr> \<and>
   normalized [1055, 1056, 1048, 1042, 1045, 1058] \<noteq> [] \<and>
   length (normalized [1055, 1056, 1048, 1042, 1045, 1058]) \<le> nat 10 \<and>
   Table_encrypt \<lparr> cols = 10 \<rparr> [1055, 1056, 1048, 1042, 1045, 1058] =
     Inr [1058, 1045, 1042, 1048, 1056, 1055]"
proof -
  have n: "normalized [1055, 1056, 1048, 1042, 1045, 1058] = [1055, 1056, 1048, 1042, 1045, 1058]"
    by (rule normalized_id) (simp add: upper_numAlpha set_numAlpha)
  have T: "Table 10 = Inr \<lparr> cols = 10 \<rparr>" by (rule Table_accepts) simp_all
  have ne: "normalized [1055, 1056, 1048, 1042, 1045, 1058] \<noteq> []" by (simp add: n)
  from transposition_route[OF T ne, THEN conjunct2] n T
  show ?thesis by simp
qed

text \<open>
  Claim C8. With one column \<open>encrypt\<close> returns the normalized text, and \<open>decrypt\<close> returns
  every valid ciphertext (non-empty, uppercase alphabet symbols only) unchanged.
\<close>

theorem transposition_one_column:
  "Table 1 = Inr \<lparr> cols = 1 \<rparr> \<and>
   (normalized t \<noteq> [] \<longrightarrow> Table_encrypt \<lparr> cols = 1 \<rparr> t = Inr (normalized t)) \<and>
   (c \<noteq> [] \<and> set c \<subseteq> set upper \<longrightarrow> Table_decrypt \<lparr> cols = 1 \<rparr> c = Inr c)"
proof -
  have T: "Table 1 = Inr \<lparr> cols = 1 \<rparr>" by (rule Table_accepts) simp_all
  have "Table_encrypt \<lparr> cols = 1 \<rparr> t = Inr (normalized t)" if "normalized t \<noteq> []"
    using Table_encrypt_route[OF T that] by (simp add: route_one_column)
  moreover have "Table_decrypt \<lparr> cols = 1 \<rparr> c = Inr c" if "c \<noteq> []" "set c \<subseteq> set upper"
    using Table_decrypt_route[OF T that] by (simp add: route_one_column)
  ultimately show ?thesis using T by blast
qed


theorem transposition_one_column_witness:
  "normalized [1055, 1088, 1080, 1074, 1077, 1090, 32, 1052, 1048, 1056] \<noteq> [] \<and>
   Table_encrypt \<lparr> cols = 1 \<rparr> [1055, 1088, 1080, 1074, 1077, 1090, 32, 1052, 1048, 1056] =
     Inr [1055, 1056, 1048, 1042, 1045, 1058, 1052, 1048, 1056] \<and>
   [1055, 1056, 1048, 1042, 1045, 1058, 1052, 1048, 1056] \<noteq> ([] :: wstring) \<and>
   set [1055, 1056, 1048, 1042, 1045, 1058, 1052, 1048, 1056] \<subseteq> set upper \<and>
   Table_decrypt \<lparr> cols = 1 \<rparr> [1055, 1056, 1048, 1042, 1045, 1058, 1052, 1048, 1056] =
     Inr [1055, 1056, 1048, 1042, 1045, 1058, 1052, 1048, 1056]"
proof -
  have n: "normalized [1055, 1088, 1080, 1074, 1077, 1090, 32, 1052, 1048, 1056] =
           [1055, 1056, 1048, 1042, 1045, 1058, 1052, 1048, 1056]"
    by (simp add: normalized_def ru_letter_def upper_numAlpha set_numAlpha set_lower ru_toupper_def)
  have u: "set [1055, 1056, 1048, 1042, 1045, 1058, 1052, 1048, 1056] \<subseteq> set upper"
    by (simp add: upper_numAlpha set_numAlpha)
  from transposition_one_column[of "[1055, 1088, 1080, 1074, 1077, 1090, 32, 1052, 1048, 1056]"
         "[1055, 1056, 1048, 1042, 1045, 1058, 1052, 1048, 1056]"] n u
  show ?thesis by simp
qed

text \<open>
  Claim C9. Whenever \<open>encrypt\<close> returns, the ciphertext has the multiset of symbols, and so
  the length, of the normalized plaintext; whenever \<open>decrypt\<close> returns, its output has the
  multiset of symbols and the length of its input.
\<close>

theorem transposition_permutation:
  assumes "Table k = Inr T"
  shows "(Table_encrypt T plain = Inr ct \<longrightarrow>
            mset ct = mset (normalized plain) \<and> length ct = length (normalized plain)) \<and>
         (Table_decrypt T cipher = Inr pt \<longrightarrow>
            mset pt = mset cipher \<and> length pt = length cipher)"
proof (intro conjI impI)
  have C: "0 < nat k" using Table_cols[OF assms] by simp
  {
    assume "Table_encrypt T plain = Inr ct"
    then have ct: "ct = route (nat k) (normalized plain)"
      using Table_encrypt_Inr[OF assms] by simp
    show "mset ct = mset (normalized plain)" unfolding ct by (rule mset_route[OF C])
    show "length ct = length (normalized plain)" unfolding ct by (rule length_route[OF C])
  }
  {
    assume d: "Table_decrypt T cipher = Inr pt"
    from Table_decrypt_Inr[OF d] have v: "cipher \<noteq> []" "set cipher \<subseteq> set upper" by simp_all
    from route_onto[OF assms v] obtain t
      where t: "set t \<subseteq> set upper" "length t = length cipher" "route (nat k) t = cipher"
      by blast
    then have "t \<noteq> []" using v(1) by auto
    from Table_decrypt_route[OF assms this t(1)] t(3) d have pt: "pt = t" by simp
    show "mset pt = mset cipher" unfolding pt t(3)[symmetric] by (rule mset_route[OF C, symmetric])
    show "length pt = length cipher" unfolding pt by (rule t(2))
  }
qed


theorem transposition_permutation_witness:
  "Table 3 = Inr \<lparr> cols = 3 \<rparr> \<and>
   Table_encrypt \<lparr> cols = 3 \<rparr> [1055, 1056, 1048, 1042, 1045, 1058, 1052, 1048, 1056] =
     Inr [1048, 1058, 1056, 1056, 1045, 1048, 1055, 1042, 1052] \<and>
   mset [1048, 1058, 1056, 1056, 1045, 1048, 1055, 1042, 1052] =
     mset (normalized [1055, 1056, 1048, 1042, 1045, 1058, 1052, 1048, 1056]) \<and>
   Table_decrypt \<lparr> cols = 3 \<rparr> [1048, 1058, 1056, 1056, 1045, 1048, 1055, 1042, 1052] =
     Inr [1055, 1056, 1048, 1042, 1045, 1058, 1052, 1048, 1056] \<and>
   mset [1055, 1056, 1048, 1042, 1045, 1058, 1052, 1048, 1056 :: wchar] =
     mset [1048, 1058, 1056, 1056, 1045, 1048, 1055, 1042, 1052]"
proof -
  let ?p = "[1055, 1056, 1048, 1042, 1045, 1058, 1052, 1048, 1056] :: wstring"
  let ?c = "[1048, 1058, 1056, 1056, 1045, 1048, 1055, 1042, 1052] :: wstring"
  have T: "Table 3 = Inr \<lparr> cols = 3 \<rparr>" by (rule Table_accepts) simp_all
  have u: "set ?p \<subseteq> set upper" by (simp add: upper_numAlpha set_numAlpha)
  have n: "normalized ?p = ?p" by (rule normalized_id[OF u])
  have r: "route 3 ?p = ?c" by (simp add: route_def upt_conv_Cons)
  have e: "Table_encrypt \<lparr> cols = 3 \<rparr> ?p = Inr ?c"
    using Table_encrypt_route[OF T, of ?p] by (simp add: n r)
  have d: "Table_decrypt \<lparr> cols = 3 \<rparr> ?c = Inr ?p"
    using Table_decrypt_route[OF T _ u] by (simp add: r)
  from transposition_permutation[OF T, of ?p ?c ?c ?p] e d
  have "mset ?c = mset (normalized ?p)" "mset ?p = mset ?c" by blast+
  with T e d show ?thesis by blast
qed


section \<open>Claims about both engines\<close>

text \<open>
  Claim C4, as amended. The transposition engine's \<open>decrypt\<close> raises \<open>Invalid cipher text\<close>
  whenever its input holds a character that is not one of the 33 uppercase alphabet symbols.
  The shift engine's \<open>decrypt\<close> raises \<open>Incorrect data entry\<close> whenever its input holds a
  character that the locale does not classify as an uppercase letter (lowercase letters,
  digits, punctuation, whitespace).
\<close>

theorem decrypt_rejects:
  "(Table k = Inr T \<and> list_ex (\<lambda>c. c \<notin> set upper) s \<longrightarrow>
      Table_decrypt T s = Inl (Cipher_error ''Invalid cipher text'')) \<and>
   (modAlphaCipher L skey = Inr eng \<and> list_ex (\<lambda>c. \<not> iswupper L c) s \<longrightarrow>
      modAlphaCipher_decrypt L eng s = Inl (Cipher_error ''Incorrect data entry''))"
proof (intro conjI impI)
  assume "Table k = Inr T \<and> list_ex (\<lambda>c. c \<notin> set upper) s"
  then have "s \<noteq> []" "list_ex (\<lambda>c. wfind upper c = None) s"
    by (auto simp: list_ex_iff wfind_None)
  then show "Table_decrypt T s = Inl (Cipher_error ''Invalid cipher text'')"
    by (simp add: Table_decrypt_def Table_getValidCipherText_def)
next
  assume "modAlphaCipher L skey = Inr eng \<and> list_ex (\<lambda>c. \<not> iswupper L c) s"
  then have "s \<noteq> []" "list_ex (\<lambda>c. \<not> iswupper L c) s"
    by (auto simp: list_ex_iff)
  then show "modAlphaCipher_decrypt L eng s = Inl (Cipher_error ''Incorrect data entry'')"
    by (simp add: modAlphaCipher_decrypt_def getValidCipherText_def)
qed

theorem decrypt_rejects_witness:
  "Table 3 = Inr \<lparr> cols = 3 \<rparr> \<and>
   list_ex (\<lambda>c. c \<notin> set upper) [1048, 1058, 1056, 32, 1056, 1045, 1048] \<and>
   Table_decrypt \<lparr> cols = 3 \<rparr> [1048, 1058, 1056, 32, 1056, 1045, 1048] =
     Inl (Cipher_error ''Invalid cipher text'') \<and>
   modAlphaCipher unicode_ctype [1042] = Inr \<lparr> alphaNum = init_alphaNum, key = [2] \<rparr> \<and>
   list_ex (\<lambda>c. \<not> iswupper unicode_ctype c) [1089, 1058, 1050, 1044, 1046, 1060] \<and>
   modAlphaCipher_decrypt unicode_ctype \<lparr> alphaNum = init_alphaNum, key = [2] \<rparr>
     [1089, 1058, 1050, 1044, 1046, 1060] = Inl (Cipher_error ''Incorrect data entry'')"
proof -
  have T: "Table 3 = Inr \<lparr> cols = 3 \<rparr>" by (rule Table_accepts) simp_all
  have a: "list_ex (\<lambda>c. c \<notin> set upper) [1048, 1058, 1056, 32, 1056, 1045, 1048]"
    by (simp add: upper_numAlpha set_numAlpha)
  have b: "list_ex (\<lambda>c. \<not> iswupper unicode_ctype c) [1089, 1058, 1050, 1044, 1046, 1060]"
    by (simp add: unicode_ctype_def)
  from decrypt_rejects[of 3 "\<lparr> cols = 3 \<rparr>" "[1048, 1058, 1056, 32, 1056, 1045, 1048]"]
       decrypt_rejects[of _ _ "[1089, 1058, 1050, 1044, 1046, 1060]" unicode_ctype "[1042]"
                          "\<lparr> alphaNum = init_alphaNum, key = [2] \<rparr>"]
       T a b eval_constructor_V
  show ?thesis by blast
qed

text \<open>
  Claim C4 as stated fails for the shift engine: a Latin capital is an uppercase letter, so
  validation accepts it, and \<open>convert\<close> drops it; the rest of the input is decrypted.
\<close>

theorem shift_decrypt_accepts_foreign:
  "modAlphaCipher_decrypt unicode_ctype (projr (modAlphaCipher unicode_ctype [1040])) [1055, 65]
     = Inr [1055]"
  by (simp add: modAlphaCipher_decrypt_def getValidCipherText_def decrypt_loop_def
                modAlphaCipher_def getValidKey_def unicode_ctype_def toUpper_def
                init_alphaNum_closed set_numAlpha indexOf_def numAlpha_def)

text \<open>
  Claim C5, as amended. The transposition engine's \<open>encrypt\<close> raises its empty-text error
  exactly when the input holds no letter of the alphabet, and returns a ciphertext otherwise.
  The shift engine's \<open>encrypt\<close> raises its empty-text error exactly when the input holds no
  character that the C library classifies as a letter; with a non-empty numeric key, when the
  library classifies the letters of the alphabet as letters, it returns a ciphertext for
  every input with a letter of the alphabet.
\<close>

theorem encrypt_empty_text:
  "(Table k = Inr T \<longrightarrow>
      ((Table_encrypt T t = Inl (Cipher_error ''Empty text: no valid Russian letters'')) =
         (normalized t = [])) \<and>
      (normalized t \<noteq> [] \<longrightarrow> (\<exists>ct. Table_encrypt T t = Inr ct))) \<and>
   ((modAlphaCipher_encrypt L eng t = Inl (Cipher_error ''Empty text, no letters'')) =
      (\<not> list_ex (iswalpha L) t)) \<and>
   (list_all (iswalpha L) (upper @ lower) \<and> key eng \<noteq> [] \<and> normalized t \<noteq> [] \<longrightarrow>
      (\<exists>ct. modAlphaCipher_encrypt L eng t = Inr ct))"
proof (intro conjI impI)
  show "(Table_encrypt T t = Inl (Cipher_error ''Empty text: no valid Russian letters'')) =
        (normalized t = [])"
    by (rule Table_encrypt_empty_text_iff)
next
  assume "Table k = Inr T" "normalized t \<noteq> []"
  then show "\<exists>ct. Table_encrypt T t = Inr ct"
    using Table_encrypt_route by blast
next
  show "(modAlphaCipher_encrypt L eng t = Inl (Cipher_error ''Empty text, no letters'')) =
        (\<not> list_ex (iswalpha L) t)"
    by (rule shift_encrypt_empty_text_iff)
next
  assume a: "list_all (iswalpha L) (upper @ lower) \<and> key eng \<noteq> [] \<and> normalized t \<noteq> []"
  then have "getValidOpenText L t = Inr (getValidOpenText_loop L t)"
    using open_text_nonempty by blast
  with a show "\<exists>ct. modAlphaCipher_encrypt L eng t = Inr ct"
    using shift_encrypt_general by blast
qed

theorem encrypt_empty_text_witness:
  "Table 3 = Inr \<lparr> cols = 3 \<rparr> \<and>
   normalized [49, 50, 51, 52] = [] \<and>
   Table_encrypt \<lparr> cols = 3 \<rparr> [49, 50, 51, 52] =
     Inl (Cipher_error ''Empty text: no valid Russian letters'') \<and>
   \<not> list_ex (iswalpha unicode_ctype) [49, 50, 51, 52] \<and>
   modAlphaCipher_encrypt unicode_ctype \<lparr> alphaNum = init_alphaNum, key = [2] \<rparr> [49, 50, 51, 52] =
     Inl (Cipher_error ''Empty text, no letters'') \<and>
   list_all (iswalpha unicode_ctype) (upper @ lower) \<and>
   key \<lparr> alphaNum = init_alphaNum, key = [2] \<rparr> \<noteq> [] \<and>
   normalized [1090, 49] = [1058] \<and>
   modAlphaCipher_encrypt unicode_ctype \<lparr> alphaNum = init_alphaNum, key = [2] \<rparr> [1090, 49] =
     Inr [1060]"
proof -
  have T: "Table 3 = Inr \<lparr> cols = 3 \<rparr>" by (rule Table_accepts) simp_all
  have n: "normalized [49, 50, 51, 52] = []"
    by (simp add: normalized_def ru_letter_def upper_numAlpha set_numAlpha set_lower)
  have a: "\<not> list_ex (iswalpha unicode_ctype) [49, 50, 51, 52]"
    by (simp add: unicode_ctype_def)
  have l: "list_all (iswalpha unicode_ctype) (upper @ lower)"
    using knows_alphabet_unicode by (simp add: knows_alphabet_def)
  have k: "key \<lparr> alphaNum = init_alphaNum, key = [2] \<rparr> \<noteq> []" by simp
  have m: "normalized [1090, 49] = [1058]"
    by (simp add: normalized_def ru_letter_def upper_numAlpha set_numAlpha set_lower ru_toupper_def)
  have e: "modAlphaCipher_encrypt unicode_ctype \<lparr> alphaNum = init_alphaNum, key = [2] \<rparr> [1090, 49] =
           Inr [1060]"
    by (simp add: modAlphaCipher_encrypt_def getValidOpenText_def encrypt_loop_def
                  unicode_ctype_def toUpper_def init_alphaNum_closed set_numAlpha indexOf_def
                  numAlpha_def)
  from encrypt_empty_text[of 3 "\<lparr> cols = 3 \<rparr>" "[49, 50, 51, 52]" unicode_ctype
                            "\<lparr> alphaNum = init_alphaNum, key = [2] \<rparr>"]
       T n a
  have "Table_encrypt \<lparr> cols = 3 \<rparr> [49, 50, 51, 52] =
          Inl (Cipher_error ''Empty text: no valid Russian letters'')"
       "modAlphaCipher_encrypt unicode_ctype \<lparr> alphaNum = init_alphaNum, key = [2] \<rparr>
          [49, 50, 51, 52] = Inl (Cipher_error ''Empty text, no letters'')"
    by blast+
  with T n a l k m e show ?thesis by blast
qed

text \<open>
  Claim C5 as stated fails for the shift engine: a text of Latin letters passes the
  validation (they are letters), \<open>convert\<close> drops them, and \<open>encrypt\<close> returns the empty
  string instead of raising.
\<close>

theorem shift_encrypt_latin_only:
  "modAlphaCipher_encrypt unicode_ctype
     (projr (modAlphaCipher unicode_ctype [1052, 1048, 1056])) [65, 66, 67] = Inr []"
  by (simp add: modAlphaCipher_encrypt_def getValidOpenText_def encrypt_loop_def
                modAlphaCipher_def getValidKey_def unicode_ctype_def toUpper_def
                init_alphaNum_closed set_numAlpha indexOf_def)

end
